theory Spec2Isabelle
  imports Main "HOL-Library.AList"
begin

section \<open>The regular expressions of get\_module\_io.py\<close>

text \<open>
  The script recognises the module header and the port declarations with four compiled
  regular expressions and \<^verbatim>\<open>re.findall\<close>. The source text is a Python string; it is
  modelled as a \<^typ>\<open>string\<close>, each \<^typ>\<open>char\<close> standing for the code point of the same
  number (code points below 256).

  The matcher below is a backtracking matcher in the style of Python's \<^verbatim>\<open>re\<close>: for a
  pattern and a position it lists every way the pattern can match there, in the order in
  which the backtracking engine tries them; the engine's answer is the first of them.
\<close>

subsection \<open>Character classes\<close>

text \<open>\<^verbatim>\<open>\s\<close> on a \<^verbatim>\<open>str\<close> pattern: the Unicode whitespace below code point 256.\<close>

definition is_space :: "char \<Rightarrow> bool" where
  "is_space c = (let n = (of_char c :: nat) in
     (9 \<le> n \<and> n \<le> 13) \<or> (28 \<le> n \<and> n \<le> 32) \<or> n = 133 \<or> n = 160)"

text \<open>\<^verbatim>\<open>\w\<close> on a \<^verbatim>\<open>str\<close> pattern: alphanumeric code points below 256, and the underscore.\<close>

definition is_word :: "char \<Rightarrow> bool" where
  "is_word c = (let n = (of_char c :: nat) in
     (48 \<le> n \<and> n \<le> 57) \<or> (65 \<le> n \<and> n \<le> 90) \<or> n = 95 \<or> (97 \<le> n \<and> n \<le> 122) \<or>
     n = 170 \<or> (178 \<le> n \<and> n \<le> 179) \<or> n = 181 \<or> (185 \<le> n \<and> n \<le> 186) \<or>
     (188 \<le> n \<and> n \<le> 190) \<or> (192 \<le> n \<and> n \<le> 214) \<or> (216 \<le> n \<and> n \<le> 246) \<or>
     (248 \<le> n \<and> n \<le> 255))"

text \<open>The members of a bracketed class: a range \<^verbatim>\<open>a-z\<close>, a single character, or \<^verbatim>\<open>\s\<close>.\<close>

datatype citem = CRange char char | CChar char | CSpace

fun in_item :: "citem \<Rightarrow> char \<Rightarrow> bool" where
  "in_item (CRange lo hi) c = ((of_char lo :: nat) \<le> of_char c \<and> (of_char c :: nat) \<le> of_char hi)"
| "in_item (CChar d) c = (c = d)"
| "in_item CSpace c = is_space c"

definition in_class :: "citem list \<Rightarrow> char \<Rightarrow> bool" where
  "in_class its c = list_ex (\<lambda>i. in_item i c) its"

subsection \<open>Patterns and the backtracking matcher\<close>

datatype regex =
    Lit string                 \<comment> \<open>a literal run of characters\<close>
  | Class "citem list"         \<comment> \<open>\<^verbatim>\<open>[...]\<close>, one character\<close>
  | Many "citem list" nat      \<comment> \<open>a class repeated greedily: \<^verbatim>\<open>*\<close> is \<open>Many cs 0\<close>, \<^verbatim>\<open>+\<close> is \<open>Many cs 1\<close>\<close>
  | Seq regex regex
  | Alt regex regex            \<comment> \<open>\<^verbatim>\<open>a|b\<close>, the left branch first\<close>
  | Times regex nat nat        \<comment> \<open>\<^verbatim>\<open>r{lo,hi}\<close>, greedy; \<^verbatim>\<open>r?\<close> is \<open>Times r 0 1\<close>\<close>
  | Group nat regex            \<comment> \<open>the capturing group of that number\<close>
  | NotBehind nat regex        \<comment> \<open>\<^verbatim>\<open>(?<!r)\<close> for \<open>r\<close> of the given fixed width\<close>
  | WordB                      \<comment> \<open>\<^verbatim>\<open>\b\<close>\<close>

text \<open>
  A matcher state: the text before the position (nearest character first), the text from
  the position on, and the groups captured so far.
\<close>

type_synonym mstate = "string \<times> string \<times> (nat \<Rightarrow> string option)"

fun step_back :: "nat \<Rightarrow> string \<Rightarrow> string \<Rightarrow> (string \<times> string) option" where
  "step_back 0 b a = Some (b, a)"
| "step_back (Suc n) [] a = None"
| "step_back (Suc n) (c # b) a = step_back n b (c # a)"

text \<open>
  A class repeated greedily, at least \<open>lo\<close> times: the longest run first, then each shorter
  one, as the engine gives characters back.
\<close>

fun many :: "(char \<Rightarrow> bool) \<Rightarrow> nat \<Rightarrow> string \<Rightarrow> string \<Rightarrow> (string \<times> string) list" where
  "many p lo b [] = (if lo = 0 then [(b, [])] else [])"
| "many p lo b (c # a) =
     (if p c then many p (lo - 1) (c # b) a else []) @ (if lo = 0 then [(b, c # a)] else [])"

text \<open>
  \<^verbatim>\<open>r{lo,hi}\<close>, greedy: one more repetition is tried before the rest of the pattern.
  \<open>f\<close> lists the matches of the body.
\<close>

fun times :: "(mstate \<Rightarrow> mstate list) \<Rightarrow> nat \<Rightarrow> nat \<Rightarrow> mstate \<Rightarrow> mstate list" where
  "times f lo 0 s = (if lo = 0 then [s] else [])"
| "times f lo (Suc hi) s =
     concat (map (times f (lo - 1) hi) (f s)) @ (if lo = 0 then [s] else [])"

definition at_boundary :: "string \<Rightarrow> string \<Rightarrow> bool" where
  "at_boundary b a =
     ((case b of [] \<Rightarrow> False | c # _ \<Rightarrow> is_word c) \<noteq> (case a of [] \<Rightarrow> False | c # _ \<Rightarrow> is_word c))"

fun matches :: "regex \<Rightarrow> mstate \<Rightarrow> mstate list" where
  "matches (Lit w) (b, a, g) =
     (if take (length w) a = w then [(rev w @ b, drop (length w) a, g)] else [])"
| "matches (Class cs) (b, a, g) =
     (case a of [] \<Rightarrow> [] | c # a' \<Rightarrow> if in_class cs c then [(c # b, a', g)] else [])"
| "matches (Many cs lo) (b, a, g) = map (\<lambda>(b', a'). (b', a', g)) (many (in_class cs) lo b a)"
| "matches (Seq r1 r2) s = concat (map (matches r2) (matches r1 s))"
| "matches (Alt r1 r2) s = matches r1 s @ matches r2 s"
| "matches (Times r lo hi) s = times (matches r) lo hi s"
| "matches (Group n r) (b, a, g) =
     map (\<lambda>(b', a', g'). (b', a', g'(n \<mapsto> take (length a - length a') a))) (matches r (b, a, g))"
| "matches (NotBehind n r) (b, a, g) =
     (case step_back n b a of
        None \<Rightarrow> [(b, a, g)]
      | Some (b', a') \<Rightarrow> if matches r (b', a', g) = [] then [(b, a, g)] else [])"
| "matches WordB (b, a, g) = (if at_boundary b a then [(b, a, g)] else [])"

text \<open>One match found by \<^verbatim>\<open>findall\<close>: where it starts, the text it spans, its groups.\<close>

record found =
  start :: nat
  matched :: string
  captures :: "nat \<Rightarrow> string option"

text \<open>
  The scan of \<^verbatim>\<open>findall\<close>: at each position, from left to right, the first way the
  pattern matches there is taken and the scan resumes where that match ends; where the
  pattern does not match, the scan moves one character on. (After a match that spans no
  text the scan moves one character on as well; no pattern of the script matches the
  empty text.)
\<close>

function scan :: "regex \<Rightarrow> string \<Rightarrow> string \<Rightarrow> found list" where
  "scan r b a =
     (case matches r (b, a, \<lambda>_. None) of
        [] \<Rightarrow> (case a of [] \<Rightarrow> [] | c # a' \<Rightarrow> scan r (c # b) a')
      | (b', a', g) # _ \<Rightarrow>
          \<lparr>start = length b, matched = take (length a - length a') a, captures = g\<rparr> #
          (if length a' < length a then scan r b' a'
           else (case a of [] \<Rightarrow> [] | c # a'' \<Rightarrow> scan r (c # b) a'')))"
  by pat_completeness auto
termination
  by (relation "measure (\<lambda>(r, b, a). length a)") auto

declare scan.simps [simp del]

text \<open>
  \<^verbatim>\<open>re.findall\<close>. A group that took no part in a match gives the empty string. For
  a pattern with one group the result lists that group's text; for a pattern with several
  groups it lists, for each match, the tuple of the groups 1 to \<open>n\<close>.
\<close>

definition group_text :: "found \<Rightarrow> nat \<Rightarrow> string" where
  "group_text f i = (case captures f i of None \<Rightarrow> [] | Some w \<Rightarrow> w)"

definition findall_one :: "regex \<Rightarrow> string \<Rightarrow> string list" where
  "findall_one r src = map (\<lambda>f. group_text f 1) (scan r [] src)"

definition findall_tuples :: "regex \<Rightarrow> nat \<Rightarrow> string \<Rightarrow> string list list" where
  "findall_tuples r n src = map (\<lambda>f. map (group_text f) [1..<Suc n]) (scan r [] src)"

subsection \<open>The four patterns\<close>

definition letters :: "citem list" where
  "letters = [CRange CHR ''a'' CHR ''z'', CRange CHR ''A'' CHR ''Z'', CChar CHR ''_'']"

text \<open>\<^verbatim>\<open>(?<!(?: |/|[a-zA-Z\_]))\<close>\<close>

definition not_after_prefix :: regex where
  "not_after_prefix = NotBehind 1 (Alt (Lit '' '') (Alt (Lit ''/'') (Class letters)))"

text \<open>\<^verbatim>\<open>[a-zA-Z\_0-9]\<close>\<close>

definition ident_chars :: "citem list" where
  "ident_chars = [CRange CHR ''a'' CHR ''z'', CRange CHR ''A'' CHR ''Z'', CChar CHR ''_'',
     CRange CHR ''0'' CHR ''9'']"

text \<open>\<^verbatim>\<open>[\n\s]\<close>\<close>

definition nl_space :: "citem list" where
  "nl_space = [CChar (CHR 0x0A), CSpace]"

text \<open>\<^verbatim>\<open>[`a-zA-Z0-9\_\-\+\:\*/ ]\<close>\<close>

definition range_chars :: "citem list" where
  "range_chars = [CChar (CHR 0x60), CRange CHR ''a'' CHR ''z'', CRange CHR ''A'' CHR ''Z'',
     CRange CHR ''0'' CHR ''9'', CChar CHR ''_'', CChar CHR ''-'', CChar CHR ''+'', CChar CHR '':'',
     CChar CHR ''*'', CChar CHR ''/'', CChar CHR '' '']"

text \<open>\<^verbatim>\<open>[a-zA-Z\_0-9\$\{\}]\<close>\<close>

definition port_chars :: "citem list" where
  "port_chars = [CRange CHR ''a'' CHR ''z'', CRange CHR ''A'' CHR ''Z'', CChar CHR ''_'',
     CRange CHR ''0'' CHR ''9'', CChar CHR ''$'', CChar CHR ''{'', CChar CHR ''}'']"

text \<open>\<^verbatim>\<open>\[[`a-zA-Z0-9\_\-\+\:\*/ ]+\]\<close>\<close>

definition bracket_expr :: regex where
  "bracket_expr = Seq (Lit ''['') (Seq (Many range_chars 1) (Lit '']''))"

text \<open>\<^verbatim>\<open>\[[`a-zA-Z0-9\_\-\+\:\*/ ]+\]|\$\$\{[a-zA-Z\_]+\}|\$\[[a-zA-Z\_]+\]\<close>\<close>

definition dimension_expr :: regex where
  "dimension_expr =
     Alt bracket_expr
    (Alt (Seq (Lit ''$${'') (Seq (Many letters 1) (Lit ''}'')))
         (Seq (Lit ''$['') (Seq (Many letters 1) (Lit '']''))))"

text \<open>
  \<^verbatim>\<open>(?<!(?: |/|[a-zA-Z\_]))module\s+(?:\$\[PREFIX\])?([a-zA-Z\_0-9]+)[\n\s]*#?[\n\s]*\(\<close>
\<close>

definition moduleNamePattern :: regex where
  "moduleNamePattern =
     Seq not_after_prefix (Seq (Lit ''module'') (Seq (Many [CSpace] 1)
    (Seq (Times (Lit ''$[PREFIX]'') 0 1) (Seq (Group 1 (Many ident_chars 1))
    (Seq (Many nl_space 0) (Seq (Times (Lit ''#'') 0 1) (Seq (Many nl_space 0) (Lit ''(''))))))))"

text \<open>
  \<^verbatim>\<open>(?<!(?: |/|[a-zA-Z\_]))parameter\s*(?:\[[`a-zA-Z0-9\_\-\+\:\*/ ]+\]\s*){0,2}\s*([a-zA-Z\_0-9]+)\s*=\<close>
\<close>

definition moduleParamsPattern :: regex where
  "moduleParamsPattern =
     Seq not_after_prefix (Seq (Lit ''parameter'') (Seq (Many [CSpace] 0)
    (Seq (Times (Seq bracket_expr (Many [CSpace] 0)) 0 2) (Seq (Many [CSpace] 0)
    (Seq (Group 1 (Many ident_chars 1)) (Seq (Many [CSpace] 0) (Lit ''='')))))))"

text \<open>
  The input and the output pattern differ in the keyword only:
  \<^verbatim>\<open>(?<!(?: |/|[a-zA-Z\_]))(input){1}\s+(wire\b|reg\b)?\s*(D)?\s*(D)?\s*([a-zA-Z\_0-9\$\{\}]+)\s*,?\<close>
  where \<^verbatim>\<open>D\<close> is the dimension expression above. The pattern is written in three
  parts: up to the whitespace after the keyword, \<^verbatim>\<open>(wire\b|reg\b)?\<close>, and the rest.
\<close>

definition storage_class :: regex where
  "storage_class = Times (Group 2 (Alt (Seq (Lit ''wire'') WordB) (Seq (Lit ''reg'') WordB))) 0 1"

definition dimensions_and_name :: regex where
  "dimensions_and_name =
     Seq (Many [CSpace] 0) (Seq (Times (Group 3 dimension_expr) 0 1)
    (Seq (Many [CSpace] 0) (Seq (Times (Group 4 dimension_expr) 0 1)
    (Seq (Many [CSpace] 0) (Seq (Group 5 (Many port_chars 1))
    (Seq (Many [CSpace] 0) (Times (Lit '','') 0 1)))))))"

definition portPattern :: "string \<Rightarrow> regex" where
  "portPattern kw =
     Seq not_after_prefix (Seq (Times (Group 1 (Lit kw)) 1 1) (Seq (Many [CSpace] 1)
    (Seq storage_class dimensions_and_name)))"

definition moduleInputsPattern :: regex where
  "moduleInputsPattern = portPattern ''input''"

definition moduleOutputsPattern :: regex where
  "moduleOutputsPattern = portPattern ''output''"

section \<open>The script\<close>

text \<open>
  The model starts where the module file has been read into \<^verbatim>\<open>moduleContents\<close>
  and follows the script to its end. What the script prints is a list of messages; a run
  ends with \<^verbatim>\<open>exit()\<close> after the module-name message, with an uncaught
  \<^verbatim>\<open>NameError\<close>, or with the report written.
\<close>

datatype message =
    ModuleNameNotIdentified
  | NoParamsFound
  | NoInputsIdentified
  | NoOutputsIdentified
  | JobDoneMsg string string
  | GoodbyeMsg string

datatype failure = Exited | NameError string

text \<open>The value stored for a signal: \<^verbatim>\<open>{"signalType": ..., "signalDimension": ...}\<close>.\<close>

record signal =
  signalType :: string
  signalDimension :: string

text \<open>
  A Python dictionary keeps its keys in the order of their first insertion; assigning to a
  key that is present replaces the value where it stands (\<^const>\<open>AList.update\<close>).
\<close>

type_synonym dictionary = "(string \<times> signal) list"

text \<open>
  \<^verbatim>\<open>for i in range(0, numInputs): ...\<close> (and the same loop over the outputs): element 1
  of a tuple is the signal type, elements 2 and 3 the dimensions, element 4 the name.
\<close>

definition store_signal :: "string list list \<Rightarrow> dictionary \<Rightarrow> nat \<Rightarrow> dictionary" where
  "store_signal moduleInputs d i =
     (let signalType = moduleInputs ! i ! 1;
          signalDimension = moduleInputs ! i ! 2 @ moduleInputs ! i ! 3;
          signalName = moduleInputs ! i ! 4
      in AList.update signalName
           \<lparr>signalType = signalType, signalDimension = signalDimension\<rparr> d)"

definition form_dictionary :: "string list list \<Rightarrow> nat \<Rightarrow> dictionary" where
  "form_dictionary moduleInputs numInputs = foldl (store_signal moduleInputs) [] [0..<numInputs]"

text \<open>The rows handed to \<^verbatim>\<open>csv.writer\<close>, each a list of cells.\<close>

definition csv_rows :: "dictionary \<Rightarrow> dictionary \<Rightarrow> string list list" where
  "csv_rows inputDictionary outputDictionary =
     [''Signal Name'', ''Input/Output'', ''Signal Type'', ''Dimension''] #
     map (\<lambda>(key, value). [key, ''Input'', signalType value, signalDimension value]) inputDictionary @
     map (\<lambda>(key, value). [key, ''Output'', signalType value, signalDimension value]) outputDictionary"

text \<open>What the script holds when it ends normally, and the file it has written.\<close>

record final =
  moduleName :: string
  inputDictionary :: dictionary
  outputDictionary :: dictionary
  outputCsvFileName :: string
  csvRows :: "string list list"

record outcome =
  printed :: "message list"
  result :: "failure + final"

text \<open>
  \<^verbatim>\<open>moduleInputs\<close> and \<^verbatim>\<open>numInputs\<close> are assigned only where the input pattern
  has matches, \<^verbatim>\<open>moduleOutputs\<close> and \<^verbatim>\<open>numOutputs\<close> only where the output
  pattern has: an unassigned pair is \<open>None\<close>, and reading it is the \<^verbatim>\<open>NameError\<close>
  of the first loop that needs it.
\<close>

definition run :: "string \<Rightarrow> outcome" where
  "run moduleContents =
     (let matches = findall_one moduleNamePattern moduleContents in
      if length matches \<noteq> 1 then \<lparr>printed = [ModuleNameNotIdentified], result = Inl Exited\<rparr>
      else
        let moduleName = matches ! 0;
            matches = findall_tuples moduleInputsPattern 5 moduleContents;
            (p1, inputVars) =
              (if length matches = 0 then ([NoInputsIdentified], None)
               else ([], Some (matches, length matches)));
            matches = findall_tuples moduleOutputsPattern 5 moduleContents;
            (p2, outputVars) =
              (if length matches = 0 then ([NoOutputsIdentified], None)
               else ([], Some (matches, length matches)))
        in case inputVars of
             None \<Rightarrow> \<lparr>printed = p1 @ p2, result = Inl (NameError ''numInputs'')\<rparr>
           | Some (moduleInputs, numInputs) \<Rightarrow>
               let inputDictionary = form_dictionary moduleInputs numInputs in
               (case outputVars of
                  None \<Rightarrow> \<lparr>printed = p1 @ p2, result = Inl (NameError ''numOutputs'')\<rparr>
                | Some (moduleOutputs, numOutputs) \<Rightarrow>
                    let outputDictionary = form_dictionary moduleOutputs numOutputs;
                        outputCsvFileName = moduleName @ ''_io.csv''
                    in \<lparr>printed = p1 @ p2 @
                          [JobDoneMsg moduleName outputCsvFileName, GoodbyeMsg outputCsvFileName],
                        result = Inr \<lparr>moduleName = moduleName,
                          inputDictionary = inputDictionary,
                          outputDictionary = outputDictionary,
                          outputCsvFileName = outputCsvFileName,
                          csvRows = csv_rows inputDictionary outputDictionary\<rparr>\<rparr>))"

section \<open>Notions used in the statements\<close>

text \<open>The key and the value that one pass of the loop stores for a tuple.\<close>

definition port_entry :: "string list \<Rightarrow> string \<times> signal" where
  "port_entry t = (t ! 4, \<lparr>signalType = t ! 1, signalDimension = t ! 2 @ t ! 3\<rparr>)"

text \<open>
  The first match of a pattern at a position, as \<^const>\<open>scan\<close> records it, and the positions
  of a text at which a pattern matches.
\<close>

definition first_match :: "regex \<Rightarrow> string \<Rightarrow> string \<Rightarrow> found option" where
  "first_match r b a =
     (case matches r (b, a, \<lambda>_. None) of
        [] \<Rightarrow> None
      | (b', a', g) # _ \<Rightarrow>
          Some \<lparr>start = length b, matched = take (length a - length a') a, captures = g\<rparr>)"

definition occurs_at :: "regex \<Rightarrow> string \<Rightarrow> nat \<Rightarrow> bool" where
  "occurs_at r src p =
     (p \<le> length src \<and>
      (case first_match r (rev (take p src)) (drop p src) of None \<Rightarrow> False | Some _ \<Rightarrow> True))"

text \<open>
  One matcher state continues another: it lies further on in the same text. The numbers
  of the groups of a pattern.
\<close>

definition extends :: "mstate \<Rightarrow> mstate \<Rightarrow> bool" where
  "extends s s' = (\<exists>w. fst (snd s) = w @ fst (snd s') \<and> fst s' = rev w @ fst s)"

fun groups_of :: "regex \<Rightarrow> nat set" where
  "groups_of (Seq r1 r2) = groups_of r1 \<union> groups_of r2"
| "groups_of (Alt r1 r2) = groups_of r1 \<union> groups_of r2"
| "groups_of (Times r lo hi) = groups_of r"
| "groups_of (Group n r) = insert n (groups_of r)"
| "groups_of (NotBehind n r) = {}"
| "groups_of r = {}"

section \<open>The run, case by case\<close>

lemma run_not_one:
  "length (findall_one moduleNamePattern src) \<noteq> 1 \<Longrightarrow>
   run src = \<lparr>printed = [ModuleNameNotIdentified], result = Inl Exited\<rparr>"
  by (simp add: run_def)

lemma run_no_inputs:
  assumes "findall_one moduleNamePattern src = [n]"
    and "findall_tuples moduleInputsPattern 5 src = []"
  shows "run src = \<lparr>printed = NoInputsIdentified #
           (if findall_tuples moduleOutputsPattern 5 src = [] then [NoOutputsIdentified] else []),
         result = Inl (NameError ''numInputs'')\<rparr>"
  using assms by (simp add: run_def)

lemma run_no_outputs:
  assumes "findall_one moduleNamePattern src = [n]"
    and "findall_tuples moduleInputsPattern 5 src \<noteq> []"
    and "findall_tuples moduleOutputsPattern 5 src = []"
  shows "run src = \<lparr>printed = [NoOutputsIdentified], result = Inl (NameError ''numOutputs'')\<rparr>"
  using assms by (simp add: run_def)

lemma run_report:
  assumes "findall_one moduleNamePattern src = [n]"
    and "findall_tuples moduleInputsPattern 5 src = ins" and "ins \<noteq> []"
    and "findall_tuples moduleOutputsPattern 5 src = outs" and "outs \<noteq> []"
  shows "run src = \<lparr>printed = [JobDoneMsg n (n @ ''_io.csv''), GoodbyeMsg (n @ ''_io.csv'')],
           result = Inr \<lparr>moduleName = n,
             inputDictionary = form_dictionary ins (length ins),
             outputDictionary = form_dictionary outs (length outs),
             outputCsvFileName = n @ ''_io.csv'',
             csvRows = csv_rows (form_dictionary ins (length ins))
               (form_dictionary outs (length outs))\<rparr>\<rparr>"
  using assms by (simp add: run_def Let_def)

text \<open>A run that ends with the report had one module name and matches of both port patterns.\<close>

lemma run_Inr:
  assumes "result (run src) = Inr fin"
  shows "\<exists>n ins outs. findall_one moduleNamePattern src = [n] \<and>
           findall_tuples moduleInputsPattern 5 src = ins \<and> ins \<noteq> [] \<and>
           findall_tuples moduleOutputsPattern 5 src = outs \<and> outs \<noteq> [] \<and>
           fin = \<lparr>moduleName = n,
             inputDictionary = form_dictionary ins (length ins),
             outputDictionary = form_dictionary outs (length outs),
             outputCsvFileName = n @ ''_io.csv'',
             csvRows = csv_rows (form_dictionary ins (length ins))
               (form_dictionary outs (length outs))\<rparr>"
proof -
  have "length (findall_one moduleNamePattern src) = 1"
    using assms run_not_one [of src]
    by (cases "length (findall_one moduleNamePattern src) = 1") auto
  then obtain n where n: "findall_one moduleNamePattern src = [n]"
    by (cases "findall_one moduleNamePattern src") auto
  have ins: "findall_tuples moduleInputsPattern 5 src \<noteq> []"
    using assms run_no_inputs [OF n] by auto
  have outs: "findall_tuples moduleOutputsPattern 5 src \<noteq> []"
    using assms run_no_outputs [OF n ins] by auto
  show ?thesis
    using assms run_report [OF n refl ins refl outs] n ins outs by auto
qed

section \<open>Forming the dictionaries\<close>

lemma store_signal_entry:
  "i < length ms \<Longrightarrow>
   store_signal ms d i = AList.update (fst (port_entry (ms ! i))) (snd (port_entry (ms ! i))) d"
  by (simp add: store_signal_def port_entry_def Let_def)

lemma foldl_store_signal_append:
  "n \<le> length ms \<Longrightarrow>
   foldl (store_signal (ms @ ts)) d [0..<n] = foldl (store_signal ms) d [0..<n]"
proof (induction n)
  case 0
  then show ?case by simp
next
  case (Suc n)
  then show ?case by (simp add: store_signal_def nth_append)
qed

lemma form_dictionary_Nil: "form_dictionary [] 0 = []"
  by (simp add: form_dictionary_def)

lemma form_dictionary_snoc:
  "form_dictionary (ms @ [t]) (length (ms @ [t])) =
     AList.update (fst (port_entry t)) (snd (port_entry t)) (form_dictionary ms (length ms))"
  by (simp add: form_dictionary_def foldl_store_signal_append store_signal_entry)

lemma first_seen_snoc:
  "rev (remdups (rev (xs @ [x]))) =
     (if x \<in> set xs then rev (remdups (rev xs)) else rev (remdups (rev xs)) @ [x])"
  by simp

lemma form_dictionary_keys:
  "map fst (form_dictionary ms (length ms)) = rev (remdups (rev (map (\<lambda>t. t ! 4) ms)))"
proof (induction ms rule: rev_induct)
  case Nil
  then show ?case by (simp add: form_dictionary_Nil)
next
  case (snoc t ms)
  have "set (map fst (form_dictionary ms (length ms))) = set (map (\<lambda>t. t ! 4) ms)"
    using snoc.IH by simp
  then have mem: "(t ! 4 \<in> fst ` set (form_dictionary ms (length ms))) = (t ! 4 \<in> (\<lambda>t. t ! 4) ` set ms)"
    by simp
  show ?case
    unfolding form_dictionary_snoc
    using snoc.IH mem by (simp add: update_keys port_entry_def)
qed

lemma form_dictionary_distinct: "distinct (map fst (form_dictionary ms (length ms)))"
  by (simp add: form_dictionary_keys)

lemma form_dictionary_map_of:
  "map_of (form_dictionary ms (length ms)) = map_of (rev (map port_entry ms))"
proof (induction ms rule: rev_induct)
  case Nil
  then show ?case by (simp add: form_dictionary_Nil)
next
  case (snoc t ms)
  show ?case
    unfolding form_dictionary_snoc
    using snoc.IH by (simp add: update_conv')
qed

lemma form_dictionary_last_wins:
  assumes "ms = pre @ t # post" and "t ! 4 \<notin> (\<lambda>u. u ! 4) ` set post"
  shows "map_of (form_dictionary ms (length ms)) (t ! 4) =
           Some \<lparr>signalType = t ! 1, signalDimension = t ! 2 @ t ! 3\<rparr>"
proof -
  have "map_of (rev (map port_entry post)) (t ! 4) = None"
    using assms(2) by (auto simp: map_of_eq_None_iff port_entry_def image_iff)
  then have "map_of (rev (map port_entry ms)) (t ! 4) =
      Some \<lparr>signalType = t ! 1, signalDimension = t ! 2 @ t ! 3\<rparr>"
    using assms(1) by (simp add: map_add_def port_entry_def)
  then show ?thesis
    by (simp only: form_dictionary_map_of)
qed

lemma form_dictionary_entry:
  assumes "(k, v) \<in> set (form_dictionary ms (length ms))"
  shows "\<exists>t \<in> set ms. k = t ! 4 \<and> v = \<lparr>signalType = t ! 1, signalDimension = t ! 2 @ t ! 3\<rparr>"
proof -
  have "map_of (form_dictionary ms (length ms)) k = Some v"
    using assms form_dictionary_distinct by simp
  then have "map_of (rev (map port_entry ms)) k = Some v"
    by (simp add: form_dictionary_map_of)
  then have "(k, v) \<in> set (rev (map port_entry ms))"
    by (rule map_of_SomeD)
  then show ?thesis by (auto simp: port_entry_def)
qed

section \<open>The matcher\<close>

lemma extends_refl: "extends s s"
  by (simp add: extends_def)

lemma extends_trans: "extends s t \<Longrightarrow> extends t u \<Longrightarrow> extends s u"
  by (auto simp: extends_def)

lemma extendsI: "a = w @ a' \<Longrightarrow> b' = rev w @ b \<Longrightarrow> extends (b, a, g) (b', a', g')"
  by (auto simp: extends_def)

lemma extendsD: "extends (b, a, g) (b', a', g') \<Longrightarrow> \<exists>w. a = w @ a' \<and> b' = rev w @ b"
  by (auto simp: extends_def)

lemma many_run:
  "(b', a') \<in> set (many p lo b a) \<Longrightarrow>
   \<exists>w. a = w @ a' \<and> b' = rev w @ b \<and> (\<forall>c \<in> set w. p c) \<and> lo \<le> length w"
proof (induction p lo b a rule: many.induct)
  case (1 p lo b)
  then show ?case by (auto split: if_splits)
next
  case (2 p lo b c a)
  from "2.prems" consider (more) "p c" "(b', a') \<in> set (many p (lo - 1) (c # b) a)"
    | (stop) "lo = 0" "b' = b" "a' = c # a"
    by (auto split: if_splits)
  then show ?case
  proof cases
    case more
    from "2.IH" [OF more] obtain w where
      w: "a = w @ a'" "b' = rev w @ c # b" "\<forall>c \<in> set w. p c" "lo - 1 \<le> length w"
      by blast
    show ?thesis
      by (rule exI [of _ "c # w"]) (use w more(1) in auto)
  next
    case stop
    then show ?thesis by simp
  qed
qed

lemma times_rel:
  assumes step: "\<And>s s'. s' \<in> set (f s) \<Longrightarrow> R s s'"
    and rfl: "\<And>s. R s s"
    and trans: "\<And>s t u. R s t \<Longrightarrow> R t u \<Longrightarrow> R s u"
  shows "s' \<in> set (times f lo hi s) \<Longrightarrow> R s s'"
proof (induction hi arbitrary: lo s)
  case 0
  then show ?case by (auto simp: rfl split: if_splits)
next
  case (Suc hi)
  from Suc.prems consider (again) t where "t \<in> set (f s)" "s' \<in> set (times f (lo - 1) hi t)"
    | (stop) "s' = s"
    by (auto split: if_splits)
  then show ?case
  proof cases
    case again
    then show ?thesis using step Suc.IH trans by blast
  next
    case stop
    then show ?thesis by (simp add: rfl)
  qed
qed

lemma matches_extends: "s' \<in> set (matches r s) \<Longrightarrow> extends s s'"
proof (induction r arbitrary: s s')
  case (Lit w)
  obtain b a g where s: "s = (b, a, g)" by (cases s)
  from Lit have "take (length w) a = w" and s': "s' = (rev w @ b, drop (length w) a, g)"
    unfolding s by (auto split: if_splits)
  then have "a = w @ drop (length w) a"
    by (metis append_take_drop_id)
  then show ?case unfolding s s' by (rule extendsI) simp
next
  case (Class cs)
  obtain b a g where s: "s = (b, a, g)" by (cases s)
  from Class show ?case unfolding s
    by (auto split: if_splits list.splits simp: extends_def)
next
  case (Many cs lo)
  obtain b a g where s: "s = (b, a, g)" by (cases s)
  from Many show ?case unfolding s
    by (auto dest!: many_run simp: extends_def)
next
  case (Seq r1 r2)
  from Seq.prems obtain t where "t \<in> set (matches r1 s)" "s' \<in> set (matches r2 t)" by auto
  then show ?case using Seq.IH extends_trans by blast
next
  case (Alt r1 r2)
  from Alt.prems have "s' \<in> set (matches r1 s) \<or> s' \<in> set (matches r2 s)" by simp
  then show ?case using Alt.IH by blast
next
  case (Times r lo hi)
  from Times.prems have "s' \<in> set (times (matches r) lo hi s)" by simp
  then show ?case
    by (rule times_rel [where R = extends, rotated -1]) (auto intro: Times.IH extends_refl extends_trans)
next
  case (Group n r)
  obtain b a g where s: "s = (b, a, g)" by (cases s)
  from Group.prems obtain b' a' g' where
    "(b', a', g') \<in> set (matches r (b, a, g))" "s' = (b', a', g'(n \<mapsto> take (length a - length a') a))"
    unfolding s by auto
  then show ?case using Group.IH [of "(b', a', g')" "(b, a, g)"] unfolding s
    by (auto simp: extends_def)
next
  case (NotBehind n r)
  obtain b a g where s: "s = (b, a, g)" by (cases s)
  from NotBehind.prems show ?case unfolding s
    by (auto split: option.splits if_splits simp: extends_refl)
next
  case WordB
  obtain b a g where s: "s = (b, a, g)" by (cases s)
  from WordB show ?case unfolding s
    by (auto split: if_splits simp: extends_refl)
qed

lemma matches_span:
  "(b', a', g') \<in> set (matches r (b, a, g)) \<Longrightarrow> \<exists>w. a = w @ a' \<and> b' = rev w @ b"
  by (rule extendsD) (rule matches_extends)

lemma matches_keeps_group:
  "s' \<in> set (matches r s) \<Longrightarrow> n \<notin> groups_of r \<Longrightarrow> snd (snd s') n = snd (snd s) n"
proof (induction r arbitrary: s s')
  case (Lit w)
  obtain b a g where s: "s = (b, a, g)" by (cases s)
  from Lit show ?case unfolding s by (auto split: if_splits)
next
  case (Class cs)
  obtain b a g where s: "s = (b, a, g)" by (cases s)
  from Class show ?case unfolding s by (auto split: if_splits list.splits)
next
  case (Many cs lo)
  obtain b a g where s: "s = (b, a, g)" by (cases s)
  from Many show ?case unfolding s by auto
next
  case (Seq r1 r2)
  from Seq.prems obtain t where "t \<in> set (matches r1 s)" "s' \<in> set (matches r2 t)" by auto
  moreover have "n \<notin> groups_of r1" "n \<notin> groups_of r2" using Seq.prems(2) by simp_all
  ultimately show ?case using Seq.IH by metis
next
  case (Alt r1 r2)
  from Alt.prems(1) have "s' \<in> set (matches r1 s) \<or> s' \<in> set (matches r2 s)" by simp
  moreover have "n \<notin> groups_of r1" "n \<notin> groups_of r2" using Alt.prems(2) by simp_all
  ultimately show ?case using Alt.IH by blast
next
  case (Times r lo hi)
  from Times.prems have "s' \<in> set (times (matches r) lo hi s)" by simp
  then show ?case
    by (rule times_rel [where R = "\<lambda>s s'. snd (snd s') n = snd (snd s) n", rotated -1])
      (use Times.IH Times.prems(2) in auto)
next
  case (Group m r)
  obtain b a g where s: "s = (b, a, g)" by (cases s)
  from Group.prems(1) obtain b' a' g' where
    "(b', a', g') \<in> set (matches r (b, a, g))" "s' = (b', a', g'(m \<mapsto> take (length a - length a') a))"
    unfolding s by auto
  then show ?case using Group.IH [of "(b', a', g')" "(b, a, g)"] Group.prems(2) unfolding s
    by auto
next
  case (NotBehind m r)
  obtain b a g where s: "s = (b, a, g)" by (cases s)
  from NotBehind.prems show ?case unfolding s
    by (auto split: option.splits if_splits)
next
  case WordB
  obtain b a g where s: "s = (b, a, g)" by (cases s)
  from WordB show ?case unfolding s by (auto split: if_splits)
qed

section \<open>The scan\<close>

lemma first_match_None: "(first_match r b a = None) = (matches r (b, a, \<lambda>_. None) = [])"
  by (auto simp: first_match_def split: list.splits)

lemma scan_no_match:
  "first_match r b a = None \<Longrightarrow>
   scan r b a = (case a of [] \<Rightarrow> [] | c # a' \<Rightarrow> scan r (c # b) a')"
  by (subst scan.simps) (simp add: first_match_None)

lemma scan_match:
  "matches r (b, a, \<lambda>_. None) = (b', a', g) # others \<Longrightarrow>
   scan r b a =
     \<lparr>start = length b, matched = take (length a - length a') a, captures = g\<rparr> #
     (if length a' < length a then scan r b' a'
      else (case a of [] \<Rightarrow> [] | c # a'' \<Rightarrow> scan r (c # b) a''))"
  by (subst scan.simps) simp

lemma first_match_SomeD:
  assumes "first_match r b a = Some f"
  shows "\<exists>b' a' g others w. matches r (b, a, \<lambda>_. None) = (b', a', g) # others \<and>
           a = w @ a' \<and> b' = rev w @ b \<and>
           f = \<lparr>start = length b, matched = w, captures = g\<rparr>"
proof -
  from assms obtain b' a' g others where
    m: "matches r (b, a, \<lambda>_. None) = (b', a', g) # others"
    and f: "f = \<lparr>start = length b, matched = take (length a - length a') a, captures = g\<rparr>"
    by (auto simp: first_match_def split: list.splits)
  from m have "(b', a', g) \<in> set (matches r (b, a, \<lambda>_. None))" by simp
  then obtain w where w: "a = w @ a'" "b' = rev w @ b" by (blast dest: matches_span)
  then have "take (length a - length a') a = w" by simp
  with m f w show ?thesis by blast
qed

text \<open>The scan from a position, in the terms of \<open>first_match\<close>.\<close>

lemma scan_unfold:
  "scan r b a =
     (case first_match r b a of
        None \<Rightarrow> (case a of [] \<Rightarrow> [] | c # a' \<Rightarrow> scan r (c # b) a')
      | Some f \<Rightarrow>
          f # (if matched f \<noteq> [] then scan r (rev (matched f) @ b) (drop (length (matched f)) a)
               else (case a of [] \<Rightarrow> [] | c # a' \<Rightarrow> scan r (c # b) a')))"
proof (cases "first_match r b a")
  case None
  then show ?thesis by (simp add: scan_no_match)
next
  case (Some f)
  from first_match_SomeD [OF Some] obtain b' a' g others w where
    m: "matches r (b, a, \<lambda>_. None) = (b', a', g) # others"
    and w: "a = w @ a'" "b' = rev w @ b"
    and f: "f = \<lparr>start = length b, matched = w, captures = g\<rparr>"
    by blast
  have "take (length a - length a') a = w" using w by simp
  moreover have "(length a' < length a) = (w \<noteq> [])" using w by auto
  moreover have "drop (length w) a = a'" using w by simp
  ultimately show ?thesis
    using Some by (simp add: scan_match [OF m] f w(2))
qed

lemma scan_found:
  "f \<in> set (scan r b a) \<Longrightarrow>
   \<exists>b0 a0. rev b0 @ a0 = rev b @ a \<and> length b \<le> length b0 \<and> first_match r b0 a0 = Some f"
proof (induction "length a" arbitrary: b a rule: less_induct)
  case less
  show ?case
  proof (cases "first_match r b a")
    case None
    show ?thesis
    proof (cases a)
      case Nil
      with None less.prems show ?thesis by (simp add: scan_no_match)
    next
      case (Cons c a')
      with None less.prems have "f \<in> set (scan r (c # b) a')" by (simp add: scan_no_match)
      from less.hyps [OF _ this] Cons show ?thesis by fastforce
    qed
  next
    case (Some f0)
    from first_match_SomeD [OF Some] obtain w a' where
      w: "a = w @ a'" and f0: "matched f0 = w" by fastforce
    have "drop (length w) a = a'" using w by simp
    then have "scan r b a =
        f0 # (if w \<noteq> [] then scan r (rev w @ b) a'
              else (case a of [] \<Rightarrow> [] | c # a'' \<Rightarrow> scan r (c # b) a''))"
      by (subst scan_unfold) (simp add: Some f0)
    with less.prems consider (here) "f = f0"
      | (after) "w \<noteq> []" "f \<in> set (scan r (rev w @ b) a')"
      | (step) c a'' where "w = []" "a = c # a''" "f \<in> set (scan r (c # b) a'')"
      by (cases "w = []"; cases a) auto
    then show ?thesis
    proof cases
      case here
      with Some show ?thesis by blast
    next
      case after
      have "length a' < length a" using w after(1) by simp
      from less.hyps [OF this after(2)] w show ?thesis by fastforce
    next
      case step
      have "length a'' < length a" using step(2) by simp
      from less.hyps [OF this step(3)] step(2) show ?thesis by fastforce
    qed
  qed
qed

lemma first_match_start:
  assumes "first_match r b a = Some f"
  shows "start f = length b" and "\<exists>a'. a = matched f @ a'"
  using first_match_SomeD [OF assms] by auto

lemma scan_Some:
  assumes "first_match r b a = Some f"
  shows "scan r b a =
     f # (if matched f \<noteq> [] then scan r (rev (matched f) @ b) (drop (length (matched f)) a)
          else (case a of [] \<Rightarrow> [] | c # a' \<Rightarrow> scan r (c # b) a'))"
  by (subst scan_unfold) (simp add: assms)

lemma same_position:
  assumes "rev b0 @ a0 = rev b @ a" and "length b0 = length b"
  shows "b0 = b" and "a0 = a"
  using assms by (auto simp: append_eq_append_conv)

lemma scan_start_ge: "f \<in> set (scan r b a) \<Longrightarrow> length b \<le> start f"
  using scan_found [of f r b a] first_match_start(1) by fastforce

lemma scan_sorted:
  "sorted_wrt (\<lambda>f f'. start f + length (matched f) \<le> start f' \<and> start f < start f') (scan r b a)"
proof (induction "length a" arbitrary: b a rule: less_induct)
  case less
  show ?case
  proof (cases "first_match r b a")
    case None
    show ?thesis
    proof (cases a)
      case Nil
      with None show ?thesis by (simp add: scan_no_match)
    next
      case (Cons c a')
      have "scan r b a = scan r (c # b) a'" using None Cons by (simp add: scan_no_match)
      with less.hyps [of a' "c # b"] Cons show ?thesis by simp
    qed
  next
    case (Some f0)
    note st = first_match_start [OF Some]
    show ?thesis
    proof (cases "matched f0 = []")
      case False
      let ?a' = "drop (length (matched f0)) a"
      have shorter: "length ?a' < length a" using st(2) False by auto
      have "\<forall>f' \<in> set (scan r (rev (matched f0) @ b) ?a').
              start f0 + length (matched f0) \<le> start f' \<and> start f0 < start f'"
      proof
        fix f' assume "f' \<in> set (scan r (rev (matched f0) @ b) ?a')"
        from scan_start_ge [OF this] have "length (matched f0) + length b \<le> start f'" by simp
        with st(1) False show "start f0 + length (matched f0) \<le> start f' \<and> start f0 < start f'"
          by (cases "matched f0") auto
      qed
      with less.hyps [OF shorter, of "rev (matched f0) @ b"] False show ?thesis
        by (simp add: scan_Some [OF Some])
    next
      case True
      show ?thesis
      proof (cases a)
        case Nil
        have "scan r b a = [f0]" using scan_Some [OF Some] True Nil by simp
        then show ?thesis by simp
      next
        case (Cons c a')
        have sc: "scan r b a = f0 # scan r (c # b) a'" using scan_Some [OF Some] True Cons by simp
        have "\<forall>f' \<in> set (scan r (c # b) a').
                start f0 + length (matched f0) \<le> start f' \<and> start f0 < start f'"
        proof
          fix f' assume "f' \<in> set (scan r (c # b) a')"
          from scan_start_ge [OF this] st(1) True
          show "start f0 + length (matched f0) \<le> start f' \<and> start f0 < start f'" by simp
        qed
        with less.hyps [of a' "c # b"] Cons show ?thesis
          unfolding sc by simp
      qed
    qed
  qed
qed

lemma scan_complete:
  assumes "rev b0 @ a0 = rev b @ a" and "length b \<le> length b0"
    and "first_match r b0 a0 \<noteq> None"
  shows "\<exists>f \<in> set (scan r b a).
           start f = length b0 \<or> (start f < length b0 \<and> length b0 < start f + length (matched f))"
  using assms
proof (induction "length a" arbitrary: b a rule: less_induct)
  case less
  show ?case
  proof (cases "length b0 = length b")
    case True
    with less.prems(1) have "b0 = b" "a0 = a" by (rule same_position)+
    with less.prems(3) obtain f where f: "first_match r b a = Some f" by auto
    have "f \<in> set (scan r b a)" by (simp add: scan_Some [OF f])
    moreover have "start f = length b0" using first_match_start(1) [OF f] True by simp
    ultimately show ?thesis by blast
  next
    case False
    with less.prems(2) have later: "length b < length b0" by simp
    have "length (rev b0 @ a0) = length (rev b @ a)" using less.prems(1) by simp
    with later obtain c a' where a: "a = c # a'" by (cases a) auto
    have step: "\<exists>f \<in> set (scan r (c # b) a').
           start f = length b0 \<or> (start f < length b0 \<and> length b0 < start f + length (matched f))"
      using less.hyps [of a' "c # b"] less.prems(1,3) later a by simp
    show ?thesis
    proof (cases "first_match r b a")
      case None
      then have "scan r b a = scan r (c # b) a'" using a by (simp add: scan_no_match)
      with step show ?thesis by simp
    next
      case (Some f)
      note st = first_match_start [OF Some]
      show ?thesis
      proof (cases "matched f = []")
        case True
        then have "scan r b a = f # scan r (c # b) a'" using scan_Some [OF Some] a by simp
        with step show ?thesis by auto
      next
        case nonempty: False
        let ?a' = "drop (length (matched f)) a"
        have here: "f \<in> set (scan r b a)" by (simp add: scan_Some [OF Some])
        show ?thesis
        proof (cases "length b0 < length b + length (matched f)")
          case True
          with later st(1) have "start f < length b0 \<and> length b0 < start f + length (matched f)"
            by simp
          with here show ?thesis by blast
        next
          case False
          have shorter: "length ?a' < length a" using st(2) nonempty by auto
          have "rev (rev (matched f) @ b) @ ?a' = rev b @ a" using st(2) by auto
          with less.prems(1) have "rev b0 @ a0 = rev (rev (matched f) @ b) @ ?a'" by simp
          from less.hyps [OF shorter this _ less.prems(3)] False
          have "\<exists>f' \<in> set (scan r (rev (matched f) @ b) ?a').
             start f' = length b0 \<or>
             (start f' < length b0 \<and> length b0 < start f' + length (matched f'))"
            by simp
          moreover have "scan r b a = f # scan r (rev (matched f) @ b) ?a'"
            using scan_Some [OF Some] nonempty by simp
          ultimately show ?thesis by auto
        qed
      qed
    qed
  qed
qed

section \<open>The patterns of the script\<close>

lemma not_after_prefix_Nil: "matches not_after_prefix ([], a, g) = [([], a, g)]"
  by (simp add: not_after_prefix_def)

lemma not_after_prefix_Cons:
  "matches not_after_prefix (c # b, a, g) =
     (if c = CHR '' '' \<or> c = CHR ''/'' \<or> in_class letters c then [] else [(c # b, a, g)])"
  by (simp add: not_after_prefix_def numeral_eq_Suc)

lemma guarded_after_prefix:
  "c = CHR '' '' \<or> c = CHR ''/'' \<or> in_class letters c \<Longrightarrow>
   matches (Seq not_after_prefix r) (c # b, a, g) = []"
  by (simp add: not_after_prefix_Cons)

lemma in_Seq:
  "(s' \<in> set (matches (Seq r1 r2) s)) = (\<exists>t \<in> set (matches r1 s). s' \<in> set (matches r2 t))"
  by auto

lemma in_Alt:
  "(s' \<in> set (matches (Alt r1 r2) s)) = (s' \<in> set (matches r1 s) \<or> s' \<in> set (matches r2 s))"
  by simp

lemma in_optional:
  "(s' \<in> set (matches (Times r 0 1) s)) = (s' \<in> set (matches r s) \<or> s' = s)"
  by (auto simp: numeral_eq_Suc)

lemma in_once: "(s' \<in> set (matches (Times r 1 1) s)) = (s' \<in> set (matches r s))"
  by (auto simp: numeral_eq_Suc)

lemma in_Lit:
  assumes "s' \<in> set (matches (Lit w) (b, a, g))"
  shows "\<exists>a'. a = w @ a' \<and> s' = (rev w @ b, a', g)"
proof -
  from assms have "take (length w) a = w" and s': "s' = (rev w @ b, drop (length w) a, g)"
    by (auto split: if_splits)
  then have "a = w @ drop (length w) a" by (metis append_take_drop_id)
  with s' show ?thesis by blast
qed

lemma in_WordB: "s' \<in> set (matches WordB s) \<Longrightarrow> s' = s"
  by (cases s) (auto split: if_splits)

lemma in_Group:
  assumes "s' \<in> set (matches (Group n r) (b, a, g))"
  shows "\<exists>b' a' g' w. (b', a', g') \<in> set (matches r (b, a, g)) \<and> a = w @ a' \<and>
           b' = rev w @ b \<and> s' = (b', a', g'(n \<mapsto> w))"
proof -
  from assms have
    "s' \<in> (\<lambda>(b', a', g'). (b', a', g'(n \<mapsto> take (length a - length a') a))) ` set (matches r (b, a, g))"
    by simp
  then obtain t where t: "t \<in> set (matches r (b, a, g))"
    and s': "s' = (\<lambda>(b', a', g'). (b', a', g'(n \<mapsto> take (length a - length a') a))) t"
    by (rule imageE)
  obtain b' a' g' where t': "t = (b', a', g')" by (cases t)
  from matches_span [OF t [unfolded t']] obtain w where w: "a = w @ a'" "b' = rev w @ b" by blast
  then have "take (length a - length a') a = w" by simp
  with s' t' have "s' = (b', a', g'(n \<mapsto> w))" by simp
  with t t' w show ?thesis by (intro exI [of _ b'] exI [of _ a'] exI [of _ g'] exI [of _ w]) simp
qed

lemma in_not_after_prefix: "s' \<in> set (matches not_after_prefix s) \<Longrightarrow> s' = s"
  by (cases s) (auto simp: not_after_prefix_def split: option.splits if_splits)

lemma in_keyword:
  assumes "s' \<in> set (matches (Times (Group 1 (Lit kw)) 1 1) (b, a, g))"
  shows "\<exists>a'. a = kw @ a' \<and> s' = (rev kw @ b, a', g(1 \<mapsto> kw))"
proof -
  from assms have "s' \<in> set (matches (Group 1 (Lit kw)) (b, a, g))"
    by (simp only: in_once)
  from in_Group [OF this] obtain b' a' g' w where
    m: "(b', a', g') \<in> set (matches (Lit kw) (b, a, g))"
    and w: "a = w @ a'" "s' = (b', a', g'(1 \<mapsto> w))" by blast
  from in_Lit [OF m] obtain a'' where "a = kw @ a''" "(b', a', g') = (rev kw @ b, a'', g)" by blast
  with w show ?thesis by auto
qed

lemma in_spaces:
  assumes "s' \<in> set (matches (Many [CSpace] lo) (b, a, g))"
  shows "\<exists>sp a'. a = sp @ a' \<and> s' = (rev sp @ b, a', g) \<and>
           (\<forall>c \<in> set sp. is_space c) \<and> lo \<le> length sp"
proof -
  from assms obtain b' a' where
    "(b', a') \<in> set (many (in_class [CSpace]) lo b a)" "s' = (b', a', g)"
    by auto
  from many_run [OF this(1)] this(2) show ?thesis
    by (auto simp: in_class_def)
qed

lemma in_word:
  assumes "s' \<in> set (matches (Seq (Lit w) WordB) (b, a, g))"
  shows "\<exists>a'. a = w @ a' \<and> s' = (rev w @ b, a', g)"
proof -
  from assms obtain t where "t \<in> set (matches (Lit w) (b, a, g))" "s' \<in> set (matches WordB t)"
    unfolding in_Seq by blast
  with in_Lit [of t w b a g] in_WordB [of s' t] show ?thesis by auto
qed

lemma in_storage_class:
  assumes "s' \<in> set (matches storage_class (b, a, g))"
  shows "s' = (b, a, g) \<or>
         (\<exists>w a'. (w = ''wire'' \<or> w = ''reg'') \<and> a = w @ a' \<and> s' = (rev w @ b, a', g(2 \<mapsto> w)))"
proof -
  from assms consider (skip) "s' = (b, a, g)"
    | (take) "s' \<in> set (matches (Group 2 (Alt (Seq (Lit ''wire'') WordB) (Seq (Lit ''reg'') WordB)))
         (b, a, g))"
    unfolding storage_class_def in_optional by blast
  then show ?thesis
  proof cases
    case skip
    then show ?thesis by simp
  next
    case take
    from in_Group [OF take] obtain b' a' g' w where
      m: "(b', a', g') \<in> set (matches (Alt (Seq (Lit ''wire'') WordB) (Seq (Lit ''reg'') WordB))
            (b, a, g))"
      and w: "a = w @ a'" "s' = (b', a', g'(2 \<mapsto> w))" by blast
    from m consider (wire) "(b', a', g') \<in> set (matches (Seq (Lit ''wire'') WordB) (b, a, g))"
      | (reg) "(b', a', g') \<in> set (matches (Seq (Lit ''reg'') WordB) (b, a, g))"
      unfolding in_Alt by blast
    then obtain k where k: "k = ''wire'' \<or> k = ''reg''"
      and ka: "\<exists>a''. a = k @ a'' \<and> (b', a', g') = (rev k @ b, a'', g)"
    proof cases
      case wire
      from in_word [OF wire] that [of "''wire''"] show ?thesis by simp
    next
      case reg
      from in_word [OF reg] that [of "''reg''"] show ?thesis by simp
    qed
    from ka have eqs: "a = k @ a'" "b' = rev k @ b" "g' = g" by simp_all
    from eqs(1) w(1) have "w = k" by simp
    then have "s' = (rev k @ b, a', g(2 \<mapsto> k))" using w(2) eqs by simp
    with k eqs(1) show ?thesis
      by (intro disjI2 exI [of _ k] exI [of _ a']) simp
  qed
qed

lemma groups_of_dimensions_and_name: "groups_of dimensions_and_name = {3, 4, 5}"
  by (auto simp: dimensions_and_name_def dimension_expr_def bracket_expr_def)

text \<open>What a match of a port pattern says about group 2 and the matched text.\<close>

lemma port_match_storage:
  assumes "(b', a', g') \<in> set (matches (portPattern kw) (b, a, \<lambda>_. None))"
  shows "(g' 2 = None \<or> g' 2 = Some ''wire'' \<or> g' 2 = Some ''reg'') \<and>
         (\<forall>w. g' 2 = Some w \<longrightarrow>
            (\<exists>sp rest. a = kw @ sp @ w @ rest @ a' \<and> sp \<noteq> [] \<and> (\<forall>c \<in> set sp. is_space c)))"
proof -
  from assms obtain s1 s2 s3 s4 where
    s1: "s1 \<in> set (matches not_after_prefix (b, a, \<lambda>_. None))"
    and s2: "s2 \<in> set (matches (Times (Group 1 (Lit kw)) 1 1) s1)"
    and s3: "s3 \<in> set (matches (Many [CSpace] 1) s2)"
    and s4: "s4 \<in> set (matches storage_class s3)"
    and s5: "(b', a', g') \<in> set (matches dimensions_and_name s4)"
    unfolding portPattern_def in_Seq by blast
  from in_not_after_prefix [OF s1] have s1': "s1 = (b, a, \<lambda>_. None)" .
  from in_keyword [OF s2 [unfolded s1']] obtain a2 where
    a2: "a = kw @ a2" and s2': "s2 = (rev kw @ b, a2, (\<lambda>_. None)(1 \<mapsto> kw))" by blast
  from in_spaces [OF s3 [unfolded s2']] obtain sp a3 where
    a3: "a2 = sp @ a3" and s3': "s3 = (rev sp @ rev kw @ b, a3, (\<lambda>_. None)(1 \<mapsto> kw))"
    and sp: "\<forall>c \<in> set sp. is_space c" "1 \<le> length sp" by blast
  obtain b4 a4 g4 where s4': "s4 = (b4, a4, g4)" by (cases s4)
  from matches_span [OF s5 [unfolded s4']] obtain rest where rest: "a4 = rest @ a'" by blast
  have keep: "g' 2 = g4 2"
    using matches_keeps_group [OF s5, of 2] by (simp add: groups_of_dimensions_and_name s4')
  from in_storage_class [OF s4 [unfolded s3']]
  consider (absent) "s4 = (rev sp @ rev kw @ b, a3, (\<lambda>_. None)(1 \<mapsto> kw))"
    | (present) w a5 where "w = ''wire'' \<or> w = ''reg''" "a3 = w @ a5"
        "s4 = (rev w @ rev sp @ rev kw @ b, a5, (\<lambda>_. None)(1 \<mapsto> kw, 2 \<mapsto> w))"
    by blast
  then show ?thesis
  proof cases
    case absent
    with s4' have "g4 = (\<lambda>_. None)(1 \<mapsto> kw)" by simp
    then have "g' 2 = None" using keep by simp
    then show ?thesis by simp
  next
    case present
    with s4' have a5: "a5 = a4" and g4: "g4 = (\<lambda>_. None)(1 \<mapsto> kw, 2 \<mapsto> w)" by simp_all
    have g2: "g' 2 = Some w" using keep g4 by simp
    have "a = kw @ sp @ w @ rest @ a'" using a2 a3 present(2) a5 rest by simp
    moreover have "sp \<noteq> []" using sp(2) by auto
    ultimately have "\<exists>sp rest. a = kw @ sp @ w @ rest @ a' \<and> sp \<noteq> [] \<and> (\<forall>c \<in> set sp. is_space c)"
      using sp(1) by blast
    with g2 present(1) show ?thesis by auto
  qed
qed

lemma occurs_at_iff:
  "occurs_at r src p = (p \<le> length src \<and> first_match r (rev (take p src)) (drop p src) \<noteq> None)"
  by (simp add: occurs_at_def split: option.splits)

lemma split_position:
  assumes "rev b0 @ a0 = src"
  shows "b0 = rev (take (length b0) src)" and "a0 = drop (length b0) src"
  using assms by auto

lemma scan_top_found:
  assumes "f \<in> set (scan r [] src)"
  shows "occurs_at r src (start f)"
    and "first_match r (rev (take (start f) src)) (drop (start f) src) = Some f"
proof -
  from scan_found [OF assms] obtain b0 a0 where
    pos: "rev b0 @ a0 = src" and f: "first_match r b0 a0 = Some f" by auto
  have st: "start f = length b0" using first_match_start(1) [OF f] .
  from split_position [OF pos] f st
  show fm: "first_match r (rev (take (start f) src)) (drop (start f) src) = Some f" by simp
  have "length b0 \<le> length src" using pos by auto
  with fm st show "occurs_at r src (start f)" by (simp add: occurs_at_iff)
qed

lemma scan_top_complete:
  assumes "occurs_at r src p"
  shows "\<exists>f \<in> set (scan r [] src).
           start f = p \<or> (start f < p \<and> p < start f + length (matched f))"
proof -
  from assms have p: "p \<le> length src"
    and m: "first_match r (rev (take p src)) (drop p src) \<noteq> None"
    by (simp_all add: occurs_at_iff)
  have "rev (rev (take p src)) @ drop p src = rev [] @ src" by simp
  from scan_complete [OF this _ m] p show ?thesis by simp
qed

lemma tuple_of_found:
  assumes "t \<in> set (findall_tuples r 5 src)"
  shows "\<exists>f \<in> set (scan r [] src). t ! 1 = group_text f 2 \<and> t ! 2 = group_text f 3 \<and>
           t ! 3 = group_text f 4 \<and> t ! 4 = group_text f 5"
proof -
  have five: "[1..<Suc 5] = [1, 2, 3, 4, 5]" by (simp add: upt_rec)
  from assms obtain f where "f \<in> set (scan r [] src)" "t = map (group_text f) [1..<Suc 5]"
    by (auto simp: findall_tuples_def)
  then show ?thesis unfolding five by auto
qed

lemma dictionary_entry_found:
  assumes "(name, v) \<in> set (form_dictionary (findall_tuples r 5 src) (length (findall_tuples r 5 src)))"
  shows "\<exists>f \<in> set (scan r [] src). name = group_text f 5 \<and> signalType v = group_text f 2 \<and>
           signalDimension v = group_text f 3 @ group_text f 4"
proof -
  from form_dictionary_entry [OF assms] obtain t where
    t: "t \<in> set (findall_tuples r 5 src)" "name = t ! 4"
       "v = \<lparr>signalType = t ! 1, signalDimension = t ! 2 @ t ! 3\<rparr>" by blast
  from tuple_of_found [OF t(1)] t(2,3) show ?thesis by auto
qed

lemma found_storage:
  assumes "f \<in> set (scan (portPattern kw) [] src)"
  shows "(captures f 2 = None \<or> captures f 2 = Some ''wire'' \<or> captures f 2 = Some ''reg'') \<and>
         (\<forall>w. captures f 2 = Some w \<longrightarrow>
            (\<exists>sp rest. matched f = kw @ sp @ w @ rest \<and> sp \<noteq> [] \<and> (\<forall>c \<in> set sp. is_space c)))"
proof -
  from scan_top_found(2) [OF assms] obtain b a where
    fm: "first_match (portPattern kw) b a = Some f" by blast
  from first_match_SomeD [OF fm] obtain b' a' g others w where
    m: "matches (portPattern kw) (b, a, \<lambda>_. None) = (b', a', g) # others"
    and w: "a = w @ a'" and f: "f = \<lparr>start = length b, matched = w, captures = g\<rparr>" by blast
  from m have "(b', a', g) \<in> set (matches (portPattern kw) (b, a, \<lambda>_. None))" by simp
  from port_match_storage [OF this] w f show ?thesis by auto
qed

lemma in_optional_group:
  assumes "s' \<in> set (matches (Times (Group n r) 0 1) (b, a, g))"
  shows "s' = (b, a, g) \<or> (\<exists>w a' b'. a = w @ a' \<and> s' = (b', a', (snd (snd s'))) \<and> snd (snd s') n = Some w \<and>
           (\<forall>m. m \<noteq> n \<longrightarrow> m \<notin> groups_of r \<longrightarrow> snd (snd s') m = g m))"
proof -
  from assms consider (skip) "s' = (b, a, g)" | (take) "s' \<in> set (matches (Group n r) (b, a, g))"
    unfolding in_optional by blast
  then show ?thesis
  proof cases
    case skip
    then show ?thesis by simp
  next
    case take
    from in_Group [OF take] obtain b' a' g' w where
      m: "(b', a', g') \<in> set (matches r (b, a, g))" and w: "a = w @ a'"
      and s': "s' = (b', a', g'(n \<mapsto> w))" by blast
    have keep: "g' m = g m" if "m \<notin> groups_of r" for m
      using matches_keeps_group [OF m that] by simp
    have "\<forall>m. m \<noteq> n \<longrightarrow> m \<notin> groups_of r \<longrightarrow> snd (snd s') m = g m"
      using keep s' by simp
    moreover have "snd (snd s') n = Some w" using s' by simp
    moreover have "s' = (b', a', snd (snd s'))" using s' by simp
    ultimately show ?thesis using w by blast
  qed
qed

lemma groups_of_dimension_expr: "groups_of dimension_expr = {}"
  by (simp add: dimension_expr_def bracket_expr_def)

text \<open>
  Where a match of a port pattern has both dimension groups, the text from the position of the
  match holds the first, then whitespace only, then the second.
\<close>

lemma port_match_dimensions:
  assumes "(b', a', g') \<in> set (matches (portPattern kw) (b, a, \<lambda>_. None))"
    and "g' 3 = Some d3" and "g' 4 = Some d4"
  shows "\<exists>pre mid post. a = pre @ d3 @ mid @ d4 @ post @ a' \<and> (\<forall>c \<in> set mid. is_space c)"
proof -
  define head where "head = Seq not_after_prefix (Seq (Times (Group 1 (Lit kw)) 1 1)
    (Seq (Many [CSpace] 1) storage_class))"
  define tail where "tail = Seq (Many [CSpace] 0) (Seq (Group 5 (Many port_chars 1))
    (Seq (Many [CSpace] 0) (Times (Lit '','') 0 1)))"
  from assms(1) obtain s4 t1 t2 t3 t4 where
    s4: "s4 \<in> set (matches head (b, a, \<lambda>_. None))"
    and t1: "t1 \<in> set (matches (Many [CSpace] 0) s4)"
    and t2: "t2 \<in> set (matches (Times (Group 3 dimension_expr) 0 1) t1)"
    and t3: "t3 \<in> set (matches (Many [CSpace] 0) t2)"
    and t4: "t4 \<in> set (matches (Times (Group 4 dimension_expr) 0 1) t3)"
    and s5: "(b', a', g') \<in> set (matches tail t4)"
    unfolding portPattern_def dimensions_and_name_def head_def tail_def in_Seq by blast
  obtain b4 a4 g4 where s4': "s4 = (b4, a4, g4)" by (cases s4)
  obtain p1 q1 h1 where t1': "t1 = (p1, q1, h1)" by (cases t1)
  obtain p2 q2 h2 where t2': "t2 = (p2, q2, h2)" by (cases t2)
  obtain p3 q3 h3 where t3': "t3 = (p3, q3, h3)" by (cases t3)
  obtain p4 q4 h4 where t4': "t4 = (p4, q4, h4)" by (cases t4)
  have gh: "groups_of head = {1, 2}"
    by (auto simp: head_def not_after_prefix_def storage_class_def)
  have gt: "groups_of tail = {5}"
    by (simp add: tail_def)
  have g4_none: "g4 3 = None" "g4 4 = None"
    using matches_keeps_group [OF s4, of 3] matches_keeps_group [OF s4, of 4]
    by (simp_all add: gh s4')
  from matches_span [OF s4 [unfolded s4']] obtain w0 where w0: "a = w0 @ a4" by blast
  from in_spaces [OF t1 [unfolded s4']] t1' obtain sp1 where
    sp1: "a4 = sp1 @ q1" and h1: "h1 = g4" by auto
  from in_spaces [OF t3 [unfolded t2']] t3' obtain mid where
    mid: "q2 = mid @ q3" "\<forall>c \<in> set mid. is_space c" and h3: "h3 = h2" by auto
  from matches_span [OF s5 [unfolded t4']] obtain post where post: "q4 = post @ a'" by blast
  have k3: "g' 3 = h4 3" and k4: "g' 4 = h4 4"
    using matches_keeps_group [OF s5, of 3] matches_keeps_group [OF s5, of 4]
    by (simp_all add: gt t4')
  from in_optional_group [OF t4 [unfolded t3']] t4'
  have four: "(q4 = q3 \<and> h4 = h3) \<or> (\<exists>w. q3 = w @ q4 \<and> h4 4 = Some w \<and> h4 3 = h3 3)"
    by (auto simp: groups_of_dimension_expr)
  from in_optional_group [OF t2 [unfolded t1']] t2'
  have three: "(q2 = q1 \<and> h2 = h1) \<or> (\<exists>w. q1 = w @ q2 \<and> h2 3 = Some w \<and> h2 4 = h1 4)"
    by (auto simp: groups_of_dimension_expr)
  have h2_4: "h2 4 = None" using three h1 g4_none by auto
  from four have q3: "q3 = d4 @ q4" and h43: "h4 3 = h3 3"
    using k4 assms(3) h3 h2_4 by auto
  from three have q1: "q1 = d3 @ q2"
    using k3 assms(2) h43 h3 h1 g4_none by auto
  have "a = (w0 @ sp1) @ d3 @ mid @ d4 @ post @ a'"
    using w0 sp1 q1 mid(1) q3 post by simp
  with mid(2) show ?thesis by blast
qed

lemma found_dimensions:
  assumes "f \<in> set (scan (portPattern kw) [] src)"
    and "captures f 3 = Some d3" and "captures f 4 = Some d4"
  shows "\<exists>pre mid post. matched f = pre @ d3 @ mid @ d4 @ post \<and> (\<forall>c \<in> set mid. is_space c)"
proof -
  from scan_top_found(2) [OF assms(1)] obtain b a where
    fm: "first_match (portPattern kw) b a = Some f" by blast
  from first_match_SomeD [OF fm] obtain b' a' g others w where
    m: "matches (portPattern kw) (b, a, \<lambda>_. None) = (b', a', g) # others"
    and w: "a = w @ a'" and f: "f = \<lparr>start = length b, matched = w, captures = g\<rparr>" by blast
  from m have "(b', a', g) \<in> set (matches (portPattern kw) (b, a, \<lambda>_. None))" by simp
  from port_match_dimensions [OF this, of d3 d4] assms(2,3) f obtain pre mid post where
    "a = pre @ d3 @ mid @ d4 @ post @ a'" "\<forall>c \<in> set mid. is_space c" by auto
  with w have "w = pre @ d3 @ mid @ d4 @ post" by simp
  with \<open>\<forall>c \<in> set mid. is_space c\<close> f show ?thesis by auto
qed

text \<open>
  No pattern of the script matches the empty text: each consumes its keyword. So the scan
  always resumes at the end of a match.
\<close>

lemma keyword_consumed:
  assumes "(b', a', g') \<in> set (matches (Seq not_after_prefix (Seq k r)) (b, a, g))"
    and "\<And>s t. t \<in> set (matches k s) \<Longrightarrow> length (fst (snd t)) < length (fst (snd s))"
  shows "length a' < length a"
proof -
  from assms(1) obtain s1 s2 where
    s1: "s1 \<in> set (matches not_after_prefix (b, a, g))"
    and s2: "s2 \<in> set (matches k s1)"
    and s3: "(b', a', g') \<in> set (matches r s2)"
    unfolding in_Seq by blast
  from in_not_after_prefix [OF s1] have s1': "s1 = (b, a, g)" .
  obtain b2 a2 g2 where s2': "s2 = (b2, a2, g2)" by (cases s2)
  from assms(2) [OF s2] have "length a2 < length a" by (simp add: s1' s2')
  moreover from matches_span [OF s3 [unfolded s2']] have "length a' \<le> length a2" by auto
  ultimately show ?thesis by simp
qed

lemma literal_consumed:
  assumes "t \<in> set (matches (Lit w) s)" and "w \<noteq> []"
  shows "length (fst (snd t)) < length (fst (snd s))"
proof -
  obtain b a g where s: "s = (b, a, g)" by (cases s)
  from in_Lit [OF assms(1) [unfolded s]] obtain a' where "a = w @ a'" "t = (rev w @ b, a', g)"
    by blast
  with assms(2) show ?thesis by (simp add: s)
qed

lemma keyword_group_consumed:
  assumes "t \<in> set (matches (Times (Group 1 (Lit kw)) 1 1) s)" and "kw \<noteq> []"
  shows "length (fst (snd t)) < length (fst (snd s))"
proof -
  obtain b a g where s: "s = (b, a, g)" by (cases s)
  from in_keyword [OF assms(1) [unfolded s]] obtain a' where
    "a = kw @ a'" "t = (rev kw @ b, a', g(1 \<mapsto> kw))" by blast
  with assms(2) show ?thesis by (simp add: s)
qed

lemma script_patterns_consume:
  assumes "r = moduleNamePattern \<or> r = moduleParamsPattern \<or>
           r = moduleInputsPattern \<or> r = moduleOutputsPattern"
    and "(b', a', g') \<in> set (matches r (b, a, g))"
  shows "length a' < length a"
proof -
  have lit: "\<And>s t. t \<in> set (matches (Lit ''module'') s) \<Longrightarrow>
      length (fst (snd t)) < length (fst (snd s))"
    by (erule literal_consumed) simp
  have par: "\<And>s t. t \<in> set (matches (Lit ''parameter'') s) \<Longrightarrow>
      length (fst (snd t)) < length (fst (snd s))"
    by (erule literal_consumed) simp
  have inp: "\<And>s t. t \<in> set (matches (Times (Group 1 (Lit ''input'')) 1 1) s) \<Longrightarrow>
      length (fst (snd t)) < length (fst (snd s))"
    by (erule keyword_group_consumed) simp
  have outp: "\<And>s t. t \<in> set (matches (Times (Group 1 (Lit ''output'')) 1 1) s) \<Longrightarrow>
      length (fst (snd t)) < length (fst (snd s))"
    by (erule keyword_group_consumed) simp
  from assms(1) consider (name) "r = moduleNamePattern" | (params) "r = moduleParamsPattern"
    | (ins) "r = moduleInputsPattern" | (outs) "r = moduleOutputsPattern" by blast
  then show ?thesis
  proof cases
    case name
    from assms(2) [unfolded name moduleNamePattern_def] show ?thesis
      by (rule keyword_consumed) (rule lit)
  next
    case params
    from assms(2) [unfolded params moduleParamsPattern_def] show ?thesis
      by (rule keyword_consumed) (rule par)
  next
    case ins
    from assms(2) [unfolded ins moduleInputsPattern_def portPattern_def] show ?thesis
      by (rule keyword_consumed) (rule inp)
  next
    case outs
    from assms(2) [unfolded outs moduleOutputsPattern_def portPattern_def] show ?thesis
      by (rule keyword_consumed) (rule outp)
  qed
qed

lemma script_matches_nonempty:
  assumes "r = moduleNamePattern \<or> r = moduleParamsPattern \<or>
           r = moduleInputsPattern \<or> r = moduleOutputsPattern"
    and "f \<in> set (scan r [] src)"
  shows "matched f \<noteq> []"
proof -
  from scan_top_found(2) [OF assms(2)] obtain b a where
    fm: "first_match r b a = Some f" by blast
  from first_match_SomeD [OF fm] obtain b' a' g others w where
    m: "matches r (b, a, \<lambda>_. None) = (b', a', g) # others"
    and w: "a = w @ a'" and f: "f = \<lparr>start = length b, matched = w, captures = g\<rparr>" by blast
  from m have "(b', a', g) \<in> set (matches r (b, a, \<lambda>_. None))" by simp
  from script_patterns_consume [OF assms(1) this] w f show ?thesis by auto
qed

text \<open>
  \<^verbatim>\<open>wire\b\<close> and \<^verbatim>\<open>reg\b\<close>: the word ends where the keyword ends. After the
  keyword the text is at its end or goes on with a character that is not a word character.
\<close>

lemma in_WordB_boundary:
  assumes "s' \<in> set (matches WordB (b, a, g))"
  shows "s' = (b, a, g) \<and> at_boundary b a"
  using assms by (simp split: if_splits)

lemma in_whole_word:
  assumes "s' \<in> set (matches (Seq (Lit w) WordB) (b, a, g))"
    and "w = ''wire'' \<or> w = ''reg''"
  shows "\<exists>a'. a = w @ a' \<and> s' = (rev w @ b, a', g) \<and>
           (case a' of [] \<Rightarrow> True | c # _ \<Rightarrow> \<not> is_word c)"
proof -
  from assms(1) obtain t where t: "t \<in> set (matches (Lit w) (b, a, g))"
    and s': "s' \<in> set (matches WordB t)"
    unfolding in_Seq by blast
  from in_Lit [OF t] obtain a' where a: "a = w @ a'" and t': "t = (rev w @ b, a', g)" by blast
  from in_WordB_boundary [OF s' [unfolded t']] have s'': "s' = (rev w @ b, a', g)"
    and bd: "at_boundary (rev w @ b) a'" by simp_all
  have e: "is_word CHR ''e''" and gg: "is_word CHR ''g''" by (simp_all add: is_word_def)
  from assms(2) have "case rev w @ b of [] \<Rightarrow> False | c # _ \<Rightarrow> is_word c"
    using e gg by (elim disjE) simp_all
  with bd have "case a' of [] \<Rightarrow> True | c # _ \<Rightarrow> \<not> is_word c"
    unfolding at_boundary_def by (cases a') simp_all
  with a s'' show ?thesis by blast
qed

lemma in_storage_class_boundary:
  assumes "s' \<in> set (matches storage_class (b, a, g))"
  shows "s' = (b, a, g) \<or>
         (\<exists>w a'. (w = ''wire'' \<or> w = ''reg'') \<and> a = w @ a' \<and> s' = (rev w @ b, a', g(2 \<mapsto> w)) \<and>
            (case a' of [] \<Rightarrow> True | c # _ \<Rightarrow> \<not> is_word c))"
proof -
  from assms consider (skip) "s' = (b, a, g)"
    | (take) "s' \<in> set (matches (Group 2 (Alt (Seq (Lit ''wire'') WordB) (Seq (Lit ''reg'') WordB)))
         (b, a, g))"
    unfolding storage_class_def in_optional by blast
  then show ?thesis
  proof cases
    case skip
    then show ?thesis by (rule disjI1)
  next
    case take
    from in_Group [OF take] obtain b' a' g' w where
      m: "(b', a', g') \<in> set (matches (Alt (Seq (Lit ''wire'') WordB) (Seq (Lit ''reg'') WordB))
            (b, a, g))"
      and w: "a = w @ a'" "s' = (b', a', g'(2 \<mapsto> w))" by blast
    from m consider (wire) "(b', a', g') \<in> set (matches (Seq (Lit ''wire'') WordB) (b, a, g))"
      | (reg) "(b', a', g') \<in> set (matches (Seq (Lit ''reg'') WordB) (b, a, g))"
      unfolding in_Alt by blast
    then obtain k where k: "k = ''wire'' \<or> k = ''reg''"
      and ka: "\<exists>a''. a = k @ a'' \<and> (b', a', g') = (rev k @ b, a'', g) \<and>
          (case a'' of [] \<Rightarrow> True | c # _ \<Rightarrow> \<not> is_word c)"
    proof cases
      case wire
      have "''wire'' = ''wire'' \<or> ''wire'' = ''reg''" by (rule disjI1) (rule refl)
      from in_whole_word [OF wire this] that [of "''wire''"] show ?thesis by simp
    next
      case reg
      have "''reg'' = ''wire'' \<or> ''reg'' = ''reg''" by (rule disjI2) (rule refl)
      from in_whole_word [OF reg this] that [of "''reg''"] show ?thesis by simp
    qed
    from ka have eqs: "a = k @ a'" "b' = rev k @ b" "g' = g"
      and bd: "case a' of [] \<Rightarrow> True | c # _ \<Rightarrow> \<not> is_word c" by auto
    from eqs(1) w(1) have "w = k" by simp
    then have "s' = (rev k @ b, a', g(2 \<mapsto> k))" using w(2) eqs by simp
    with k eqs(1) bd show ?thesis
      by (intro disjI2 exI [of _ k] exI [of _ a']) simp
  qed
qed

lemma matches_shorter:
  assumes "t \<in> set (matches r s)"
  shows "length (fst (snd t)) \<le> length (fst (snd s))"
proof -
  obtain b a g where s: "s = (b, a, g)" by (cases s)
  obtain b' a' g' where t: "t = (b', a', g')" by (cases t)
  from matches_span [OF assms [unfolded s t]] show ?thesis by (auto simp: s t)
qed

lemma in_port_name:
  assumes "t \<in> set (matches (Group 5 (Many port_chars 1)) s)"
  shows "length (fst (snd t)) < length (fst (snd s))"
proof -
  obtain b a g where s: "s = (b, a, g)" by (cases s)
  from in_Group [OF assms [unfolded s]] obtain b' a' g' w where
    m: "(b', a', g') \<in> set (matches (Many port_chars 1) (b, a, g))"
    and t: "t = (b', a', g'(5 \<mapsto> w))" by blast
  from m have "(b', a') \<in> set (many (in_class port_chars) 1 b a)" by auto
  from many_run [OF this] obtain u where "a = u @ a'" "1 \<le> length u" by blast
  then show ?thesis by (cases u) (simp_all add: s t)
qed

text \<open>The part of a port pattern after the storage class takes in the name: it is not empty.\<close>

lemma dimensions_and_name_consumes:
  assumes "t \<in> set (matches dimensions_and_name s)"
  shows "length (fst (snd t)) < length (fst (snd s))"
proof -
  from assms obtain t1 t2 t3 t4 t5 t6 where
    "t1 \<in> set (matches (Many [CSpace] 0) s)"
    "t2 \<in> set (matches (Times (Group 3 dimension_expr) 0 1) t1)"
    "t3 \<in> set (matches (Many [CSpace] 0) t2)"
    "t4 \<in> set (matches (Times (Group 4 dimension_expr) 0 1) t3)"
    "t5 \<in> set (matches (Many [CSpace] 0) t4)"
    "t6 \<in> set (matches (Group 5 (Many port_chars 1)) t5)"
    "t \<in> set (matches (Seq (Many [CSpace] 0) (Times (Lit '','') 0 1)) t6)"
    unfolding dimensions_and_name_def in_Seq by blast
  from this(1-5) [THEN matches_shorter] in_port_name [OF this(6)] matches_shorter [OF this(7)]
  show ?thesis by linarith
qed

text \<open>
  Where a match of a port pattern has group 2, the text of the match is the keyword,
  whitespace, \<open>wire\<close> or \<open>reg\<close>, and then a character that is not a word character:
  the storage class is a whole word of the declaration.
\<close>

lemma port_match_whole_word:
  assumes "(b', a', g') \<in> set (matches (portPattern kw) (b, a, \<lambda>_. None))"
    and "g' 2 = Some w"
  shows "\<exists>sp c rest. a = kw @ sp @ w @ c # rest @ a' \<and> sp \<noteq> [] \<and>
           (\<forall>x \<in> set sp. is_space x) \<and> \<not> is_word c"
proof -
  from assms(1) obtain s1 s2 s3 s4 where
    s1: "s1 \<in> set (matches not_after_prefix (b, a, \<lambda>_. None))"
    and s2: "s2 \<in> set (matches (Times (Group 1 (Lit kw)) 1 1) s1)"
    and s3: "s3 \<in> set (matches (Many [CSpace] 1) s2)"
    and s4: "s4 \<in> set (matches storage_class s3)"
    and s5: "(b', a', g') \<in> set (matches dimensions_and_name s4)"
    unfolding portPattern_def in_Seq by blast
  from in_not_after_prefix [OF s1] have s1': "s1 = (b, a, \<lambda>_. None)" .
  from in_keyword [OF s2 [unfolded s1']] obtain a2 where
    a2: "a = kw @ a2" and s2': "s2 = (rev kw @ b, a2, (\<lambda>_. None)(1 \<mapsto> kw))" by blast
  from in_spaces [OF s3 [unfolded s2']] obtain sp a3 where
    a3: "a2 = sp @ a3" and s3': "s3 = (rev sp @ rev kw @ b, a3, (\<lambda>_. None)(1 \<mapsto> kw))"
    and sp: "\<forall>c \<in> set sp. is_space c" "1 \<le> length sp" by blast
  obtain b4 a4 g4 where s4': "s4 = (b4, a4, g4)" by (cases s4)
  from matches_span [OF s5 [unfolded s4']] obtain rest where rest: "a4 = rest @ a'" by blast
  from dimensions_and_name_consumes [OF s5] have "length a' < length a4" by (simp add: s4')
  with rest obtain c rest' where cr: "rest = c # rest'" by (cases rest) auto
  have keep: "g' 2 = g4 2"
    using matches_keeps_group [OF s5, of 2] by (simp add: groups_of_dimensions_and_name s4')
  from in_storage_class_boundary [OF s4 [unfolded s3']]
  consider (absent) "s4 = (rev sp @ rev kw @ b, a3, (\<lambda>_. None)(1 \<mapsto> kw))"
    | (present) k a5 where "a3 = k @ a5"
        "s4 = (rev k @ rev sp @ rev kw @ b, a5, (\<lambda>_. None)(1 \<mapsto> kw, 2 \<mapsto> k))"
        "case a5 of [] \<Rightarrow> True | c # _ \<Rightarrow> \<not> is_word c"
    by blast
  then show ?thesis
  proof cases
    case absent
    with s4' have "g4 = (\<lambda>_. None)(1 \<mapsto> kw)" by simp
    then have "g' 2 = None" using keep by simp
    with assms(2) show ?thesis by simp
  next
    case present
    with s4' have a5: "a5 = a4" and g4: "g4 = (\<lambda>_. None)(1 \<mapsto> kw, 2 \<mapsto> k)" by simp_all
    have "g' 2 = Some k" using keep g4 by simp
    with assms(2) have k: "k = w" by simp
    have nw: "\<not> is_word c" using present(3) a5 rest cr by simp
    have "a = kw @ sp @ w @ c # rest' @ a'" using a2 a3 present(1) a5 rest cr k by simp
    moreover have "sp \<noteq> []" using sp(2) by auto
    ultimately show ?thesis using sp(1) nw by blast
  qed
qed

lemma found_whole_word:
  assumes "f \<in> set (scan (portPattern kw) [] src)" and "captures f 2 = Some w"
  shows "\<exists>sp c rest. matched f = kw @ sp @ w @ c # rest \<and> sp \<noteq> [] \<and>
           (\<forall>x \<in> set sp. is_space x) \<and> \<not> is_word c"
proof -
  from scan_top_found(2) [OF assms(1)] obtain b a where
    fm: "first_match (portPattern kw) b a = Some f" by blast
  from first_match_SomeD [OF fm] obtain b' a' g others u where
    m: "matches (portPattern kw) (b, a, \<lambda>_. None) = (b', a', g) # others"
    and u: "a = u @ a'" and f: "f = \<lparr>start = length b, matched = u, captures = g\<rparr>" by blast
  from m have mem: "(b', a', g) \<in> set (matches (portPattern kw) (b, a, \<lambda>_. None))" by simp
  from assms(2) f have "g 2 = Some w" by simp
  from port_match_whole_word [OF mem this] obtain sp c rest where
    a: "a = kw @ sp @ w @ c # rest @ a'" and sp: "sp \<noteq> []" "\<forall>x \<in> set sp. is_space x"
    and c: "\<not> is_word c" by blast
  from a u have "u = kw @ sp @ w @ c # rest" by simp
  then have "matched f = kw @ sp @ w @ c # rest" using f by simp
  with sp c show ?thesis by blast
qed

section \<open>Module-name resolution\<close>

text \<open>
  Claim C1. Where the module-name pattern has exactly one match \<open>n\<close>, the script does not
  stop with the module-name message: it goes on to the ports, and a run that ends with the
  report has \<open>n\<close> as its module name and \<open>n_io.csv\<close> as its file. Where the pattern
  has no match or more than one, the script prints the module-name message and exits:
  nothing else is printed and no report is written.
\<close>

theorem module_name_exactly_one_or_abort:
  "(findall_one moduleNamePattern src = [n] \<longrightarrow>
      result (run src) \<noteq> Inl Exited \<and> ModuleNameNotIdentified \<notin> set (printed (run src)) \<and>
      (\<forall>fin. result (run src) = Inr fin \<longrightarrow>
         moduleName fin = n \<and> outputCsvFileName fin = n @ ''_io.csv'')) \<and>
   (length (findall_one moduleNamePattern src) \<noteq> 1 \<longrightarrow>
      run src = \<lparr>printed = [ModuleNameNotIdentified], result = Inl Exited\<rparr>)"
proof (intro conjI impI)
  assume n: "findall_one moduleNamePattern src = [n]"
  consider (a) "findall_tuples moduleInputsPattern 5 src = []"
    | (b) "findall_tuples moduleInputsPattern 5 src \<noteq> []"
          "findall_tuples moduleOutputsPattern 5 src = []"
    | (c) "findall_tuples moduleInputsPattern 5 src \<noteq> []"
          "findall_tuples moduleOutputsPattern 5 src \<noteq> []"
    by blast
  then have "result (run src) \<noteq> Inl Exited \<and> ModuleNameNotIdentified \<notin> set (printed (run src))"
  proof cases
    case a
    then show ?thesis using run_no_inputs [OF n a] by simp
  next
    case b
    then show ?thesis using run_no_outputs [OF n b] by simp
  next
    case c
    then show ?thesis using run_report [OF n refl c(1) refl c(2)] by simp
  qed
  then show "result (run src) \<noteq> Inl Exited"
    and "ModuleNameNotIdentified \<notin> set (printed (run src))" by simp_all
  show "\<forall>fin. result (run src) = Inr fin \<longrightarrow>
         moduleName fin = n \<and> outputCsvFileName fin = n @ ''_io.csv''"
    using run_Inr n by fastforce
next
  assume "length (findall_one moduleNamePattern src) \<noteq> 1"
  then show "run src = \<lparr>printed = [ModuleNameNotIdentified], result = Inl Exited\<rparr>"
    by (rule run_not_one)
qed

lemma one_header_run:
  "run ''module foo (input a,output b);'' =
     \<lparr>printed = [JobDoneMsg ''foo'' ''foo_io.csv'', GoodbyeMsg ''foo_io.csv''],
      result = Inr \<lparr>moduleName = ''foo'',
        inputDictionary = [(''a'', \<lparr>signalType = [], signalDimension = []\<rparr>)],
        outputDictionary = [(''b'', \<lparr>signalType = [], signalDimension = []\<rparr>)],
        outputCsvFileName = ''foo_io.csv'',
        csvRows = [[''Signal Name'', ''Input/Output'', ''Signal Type'', ''Dimension''],
                   [''a'', ''Input'', [], []], [''b'', ''Output'', [], []]]\<rparr>\<rparr>"
  by code_simp

lemma one_header_name: "findall_one moduleNamePattern ''module foo (input a,output b);'' = [''foo'']"
  by code_simp

lemma two_headers_names:
  "findall_one moduleNamePattern ''module a (input x);module b (input y);'' = [''a'', ''b'']"
  by code_simp

lemma indented_header_names: "findall_one moduleNamePattern ''  module a (input x);'' = []"
  by code_simp

text \<open>
  One header, two headers and no header (the keyword follows a space): the name is
  stored in the first case, the script exits in the other two.
\<close>

theorem module_name_exactly_one_or_abort_witness:
  "findall_one moduleNamePattern ''module foo (input a,output b);'' = [''foo''] \<and>
   (\<exists>fin. result (run ''module foo (input a,output b);'') = Inr fin \<and>
      moduleName fin = ''foo'' \<and> outputCsvFileName fin = ''foo_io.csv'') \<and>
   length (findall_one moduleNamePattern ''module a (input x);module b (input y);'') \<noteq> 1 \<and>
   run ''module a (input x);module b (input y);'' =
     \<lparr>printed = [ModuleNameNotIdentified], result = Inl Exited\<rparr> \<and>
   length (findall_one moduleNamePattern ''  module a (input x);'') \<noteq> 1 \<and>
   run ''  module a (input x);'' = \<lparr>printed = [ModuleNameNotIdentified], result = Inl Exited\<rparr>"
  using module_name_exactly_one_or_abort [of "''module foo (input a,output b);''" "''foo''"]
    module_name_exactly_one_or_abort [of "''module a (input x);module b (input y);''" "[]"]
    module_name_exactly_one_or_abort [of "''  module a (input x);''" "[]"]
  by (simp add: one_header_run one_header_name two_headers_names indented_header_names)

section \<open>A direction without ports\<close>

text \<open>
  Claim C3. A module with an input and no output: the script prints the message about the
  outputs and goes on, but \<^verbatim>\<open>numOutputs\<close> was never assigned, and the loop over the
  outputs raises \<^verbatim>\<open>NameError\<close> before the report is opened. A module with an output
  and no input: the same with \<^verbatim>\<open>numInputs\<close> in the loop over the inputs. No
  dictionary and no report come out of either run.
\<close>

theorem one_direction_raises_name_error:
  "run ''module foo (input a);'' =
     \<lparr>printed = [NoOutputsIdentified], result = Inl (NameError ''numOutputs'')\<rparr> \<and>
   run ''module foo (output reg busy);'' =
     \<lparr>printed = [NoInputsIdentified], result = Inl (NameError ''numInputs'')\<rparr>"
  by code_simp

section \<open>Duplicate port names\<close>

text \<open>
  Claim C4. In a run that ends with the report, each dictionary has one entry for each port
  name; the names stand in the order in which they first occur among the matches
  (\<open>rev (remdups (rev ns))\<close> keeps the first occurrence of each name of \<open>ns\<close>, in order);
  and the value stored under a name is that of the last match with this name: a later
  duplicate replaces the value and leaves the order alone.
\<close>

theorem duplicate_ports_last_wins_in_first_seen_order:
  assumes "result (run src) = Inr fin"
    and "ins = findall_tuples moduleInputsPattern 5 src"
    and "outs = findall_tuples moduleOutputsPattern 5 src"
  shows "distinct (map fst (inputDictionary fin)) \<and>
         map fst (inputDictionary fin) = rev (remdups (rev (map (\<lambda>t. t ! 4) ins))) \<and>
         (\<forall>pre t post. ins = pre @ t # post \<and> t ! 4 \<notin> (\<lambda>u. u ! 4) ` set post \<longrightarrow>
            map_of (inputDictionary fin) (t ! 4) =
              Some \<lparr>signalType = t ! 1, signalDimension = t ! 2 @ t ! 3\<rparr>) \<and>
         distinct (map fst (outputDictionary fin)) \<and>
         map fst (outputDictionary fin) = rev (remdups (rev (map (\<lambda>t. t ! 4) outs))) \<and>
         (\<forall>pre t post. outs = pre @ t # post \<and> t ! 4 \<notin> (\<lambda>u. u ! 4) ` set post \<longrightarrow>
            map_of (outputDictionary fin) (t ! 4) =
              Some \<lparr>signalType = t ! 1, signalDimension = t ! 2 @ t ! 3\<rparr>)"
proof -
  from run_Inr [OF assms(1)] assms(2,3) have
    i: "inputDictionary fin = form_dictionary ins (length ins)"
    and out: "outputDictionary fin = form_dictionary outs (length outs)"
    by auto
  have last: "map_of (form_dictionary ts (length ts)) (t ! 4) =
      Some \<lparr>signalType = t ! 1, signalDimension = t ! 2 @ t ! 3\<rparr>"
    if "ts = pre @ t # post \<and> t ! 4 \<notin> (\<lambda>u. u ! 4) ` set post" for ts pre t post
    using that form_dictionary_last_wins [of ts pre t post] by (elim conjE)
  show ?thesis
    unfolding i out
  proof (intro conjI allI impI)
    show "distinct (map fst (form_dictionary ins (length ins)))"
      by (rule form_dictionary_distinct)
    show "map fst (form_dictionary ins (length ins)) = rev (remdups (rev (map (\<lambda>t. t ! 4) ins)))"
      by (rule form_dictionary_keys)
    show "distinct (map fst (form_dictionary outs (length outs)))"
      by (rule form_dictionary_distinct)
    show "map fst (form_dictionary outs (length outs)) = rev (remdups (rev (map (\<lambda>t. t ! 4) outs)))"
      by (rule form_dictionary_keys)
  qed (rule last, assumption)+
qed

lemma duplicate_run:
  "run ''module m (input a,input b,input [3:0] a,output c);'' =
     \<lparr>printed = [JobDoneMsg ''m'' ''m_io.csv'', GoodbyeMsg ''m_io.csv''],
      result = Inr \<lparr>moduleName = ''m'',
        inputDictionary = [(''a'', \<lparr>signalType = [], signalDimension = ''[3:0]''\<rparr>),
                           (''b'', \<lparr>signalType = [], signalDimension = []\<rparr>)],
        outputDictionary = [(''c'', \<lparr>signalType = [], signalDimension = []\<rparr>)],
        outputCsvFileName = ''m_io.csv'',
        csvRows = [[''Signal Name'', ''Input/Output'', ''Signal Type'', ''Dimension''],
                   [''a'', ''Input'', [], ''[3:0]''], [''b'', ''Input'', [], []],
                   [''c'', ''Output'', [], []]]\<rparr>\<rparr>"
  by code_simp

lemma duplicate_inputs:
  "findall_tuples moduleInputsPattern 5 ''module m (input a,input b,input [3:0] a,output c);'' =
     [[''input'', [], [], [], ''a''], [''input'', [], [], [], ''b''],
      [''input'', [], ''[3:0]'', [], ''a'']]"
  by code_simp

lemma duplicate_outputs:
  "findall_tuples moduleOutputsPattern 5 ''module m (input a,input b,input [3:0] a,output c);'' =
     [[''output'', [], [], [], ''c'']]"
  by code_simp

text \<open>
  The input \<open>a\<close> declared twice, before and after \<open>b\<close>: \<open>a\<close> stays first and
  carries the dimension of its second declaration.
\<close>

theorem duplicate_ports_last_wins_in_first_seen_order_witness:
  "\<exists>fin. result (run ''module m (input a,input b,input [3:0] a,output c);'') = Inr fin \<and>
     findall_tuples moduleInputsPattern 5 ''module m (input a,input b,input [3:0] a,output c);'' =
       [[''input'', [], [], [], ''a''], [''input'', [], [], [], ''b'']] @
       [''input'', [], ''[3:0]'', [], ''a''] # [] \<and>
     map fst (inputDictionary fin) = [''a'', ''b''] \<and>
     map_of (inputDictionary fin) ''a'' = Some \<lparr>signalType = [], signalDimension = ''[3:0]''\<rparr>"
proof -
  let ?src = "''module m (input a,input b,input [3:0] a,output c);''"
  obtain fin where fin: "result (run ?src) = Inr fin"
    by (simp add: duplicate_run)
  note inst = duplicate_ports_last_wins_in_first_seen_order [OF fin refl refl]
  have keys: "map fst (inputDictionary fin) = [''a'', ''b'']"
    using inst by (simp add: duplicate_inputs)
  have split: "findall_tuples moduleInputsPattern 5 ?src =
       [[''input'', [], [], [], ''a''], [''input'', [], [], [], ''b'']] @
       [''input'', [], ''[3:0]'', [], ''a''] # []"
    by (simp add: duplicate_inputs)
  from inst have "\<forall>pre t post. findall_tuples moduleInputsPattern 5 ?src = pre @ t # post \<and>
       t ! 4 \<notin> (\<lambda>u. u ! 4) ` set post \<longrightarrow>
       map_of (inputDictionary fin) (t ! 4) =
         Some \<lparr>signalType = t ! 1, signalDimension = t ! 2 @ t ! 3\<rparr>"
    by blast
  from this [rule_format, of "[[''input'', [], [], [], ''a''], [''input'', [], [], [], ''b'']]"
      "[''input'', [], ''[3:0]'', [], ''a'']" "[]"] split
  have val: "map_of (inputDictionary fin) ''a'' = Some \<lparr>signalType = [], signalDimension = ''[3:0]''\<rparr>"
    by simp
  show ?thesis
    by (rule exI [of _ fin]) (intro conjI fin split keys val)
qed

section \<open>The dimension of a port\<close>

text \<open>
  Claim C5. In a run that ends with the report, every entry of either dictionary comes from
  a match of its pattern whose group 5 is the name, and its dimension is the text of group 3
  followed by the text of group 4, the empty string standing for a group that took no part
  in the match. So a port without bracket expressions has the empty dimension, and a port
  with two has the first followed by the second; the two stand in this order in the matched
  text, with nothing but whitespace between them.
\<close>

theorem dimension_is_concatenation_of_captures:
  assumes "result (run src) = Inr fin"
  shows "(\<forall>(name, v) \<in> set (inputDictionary fin).
            \<exists>f \<in> set (scan moduleInputsPattern [] src). name = group_text f 5 \<and>
              signalDimension v =
                (case captures f 3 of None \<Rightarrow> [] | Some d \<Rightarrow> d) @
                (case captures f 4 of None \<Rightarrow> [] | Some d \<Rightarrow> d) \<and>
              (\<forall>d3 d4. captures f 3 = Some d3 \<and> captures f 4 = Some d4 \<longrightarrow>
                 (\<exists>pre mid post. matched f = pre @ d3 @ mid @ d4 @ post \<and>
                    (\<forall>c \<in> set mid. is_space c)))) \<and>
         (\<forall>(name, v) \<in> set (outputDictionary fin).
            \<exists>f \<in> set (scan moduleOutputsPattern [] src). name = group_text f 5 \<and>
              signalDimension v =
                (case captures f 3 of None \<Rightarrow> [] | Some d \<Rightarrow> d) @
                (case captures f 4 of None \<Rightarrow> [] | Some d \<Rightarrow> d) \<and>
              (\<forall>d3 d4. captures f 3 = Some d3 \<and> captures f 4 = Some d4 \<longrightarrow>
                 (\<exists>pre mid post. matched f = pre @ d3 @ mid @ d4 @ post \<and>
                    (\<forall>c \<in> set mid. is_space c))))"
proof -
  from run_Inr [OF assms] have
    i: "inputDictionary fin = form_dictionary (findall_tuples (portPattern ''input'') 5 src)
          (length (findall_tuples (portPattern ''input'') 5 src))"
    and out: "outputDictionary fin = form_dictionary (findall_tuples (portPattern ''output'') 5 src)
          (length (findall_tuples (portPattern ''output'') 5 src))"
    by (auto simp: moduleInputsPattern_def moduleOutputsPattern_def)
  have entry: "\<exists>f \<in> set (scan (portPattern kw) [] src). name = group_text f 5 \<and>
      signalDimension v =
        (case captures f 3 of None \<Rightarrow> [] | Some d \<Rightarrow> d) @
        (case captures f 4 of None \<Rightarrow> [] | Some d \<Rightarrow> d) \<and>
      (\<forall>d3 d4. captures f 3 = Some d3 \<and> captures f 4 = Some d4 \<longrightarrow>
         (\<exists>pre mid post. matched f = pre @ d3 @ mid @ d4 @ post \<and> (\<forall>c \<in> set mid. is_space c)))"
    if "(name, v) \<in> set (form_dictionary (findall_tuples (portPattern kw) 5 src)
          (length (findall_tuples (portPattern kw) 5 src)))"
    for kw name v
  proof -
    from dictionary_entry_found [OF that] obtain f where
      f: "f \<in> set (scan (portPattern kw) [] src)" "name = group_text f 5"
         "signalDimension v = group_text f 3 @ group_text f 4" by blast
    have "\<forall>d3 d4. captures f 3 = Some d3 \<and> captures f 4 = Some d4 \<longrightarrow>
         (\<exists>pre mid post. matched f = pre @ d3 @ mid @ d4 @ post \<and> (\<forall>c \<in> set mid. is_space c))"
      using found_dimensions [OF f(1)] by blast
    with f show ?thesis unfolding group_text_def by blast
  qed
  show ?thesis
    unfolding i out moduleInputsPattern_def moduleOutputsPattern_def using entry by blast
qed

lemma dimensions_run:
  "run ''module m (input a,input wire [7:0][0:3] mem,output [1:0] b);'' =
     \<lparr>printed = [JobDoneMsg ''m'' ''m_io.csv'', GoodbyeMsg ''m_io.csv''],
      result = Inr \<lparr>moduleName = ''m'',
        inputDictionary = [(''a'', \<lparr>signalType = [], signalDimension = []\<rparr>),
                           (''mem'', \<lparr>signalType = ''wire'', signalDimension = ''[7:0][0:3]''\<rparr>)],
        outputDictionary = [(''b'', \<lparr>signalType = [], signalDimension = ''[1:0]''\<rparr>)],
        outputCsvFileName = ''m_io.csv'',
        csvRows = [[''Signal Name'', ''Input/Output'', ''Signal Type'', ''Dimension''],
                   [''a'', ''Input'', [], []], [''mem'', ''Input'', ''wire'', ''[7:0][0:3]''],
                   [''b'', ''Output'', [], ''[1:0]'']]\<rparr>\<rparr>"
  by code_simp

lemma dimensions_groups:
  "map (\<lambda>f. (captures f 3, captures f 4, captures f 5))
     (scan moduleInputsPattern [] ''module m (input a,input wire [7:0][0:3] mem,output [1:0] b);'') =
     [(None, None, Some ''a''), (Some ''[7:0]'', Some ''[0:3]'', Some ''mem'')]"
  by code_simp

text \<open>
  A scalar input and an input with two bracket expressions: the entries of \<open>a\<close> and of
  \<open>mem\<close> come from matches with these captures, and carry these dimensions.
\<close>

theorem dimension_is_concatenation_of_captures_witness:
  "\<exists>fin. result (run ''module m (input a,input wire [7:0][0:3] mem,output [1:0] b);'') = Inr fin \<and>
     (''a'', \<lparr>signalType = [], signalDimension = []\<rparr>) \<in> set (inputDictionary fin) \<and>
     (''mem'', \<lparr>signalType = ''wire'', signalDimension = ''[7:0][0:3]''\<rparr>) \<in> set (inputDictionary fin) \<and>
     (\<exists>f \<in> set (scan moduleInputsPattern []
          ''module m (input a,input wire [7:0][0:3] mem,output [1:0] b);'').
        ''mem'' = group_text f 5 \<and>
        ''[7:0][0:3]'' = (case captures f 3 of None \<Rightarrow> [] | Some d \<Rightarrow> d) @
                        (case captures f 4 of None \<Rightarrow> [] | Some d \<Rightarrow> d) \<and>
        (\<forall>d3 d4. captures f 3 = Some d3 \<and> captures f 4 = Some d4 \<longrightarrow>
           (\<exists>pre mid post. matched f = pre @ d3 @ mid @ d4 @ post \<and>
              (\<forall>c \<in> set mid. is_space c)))) \<and>
     (\<exists>f \<in> set (scan moduleInputsPattern []
          ''module m (input a,input wire [7:0][0:3] mem,output [1:0] b);'').
        ''a'' = group_text f 5 \<and>
        [] = (case captures f 3 of None \<Rightarrow> [] | Some d \<Rightarrow> d) @
             (case captures f 4 of None \<Rightarrow> [] | Some d \<Rightarrow> d) \<and>
        (\<forall>d3 d4. captures f 3 = Some d3 \<and> captures f 4 = Some d4 \<longrightarrow>
           (\<exists>pre mid post. matched f = pre @ d3 @ mid @ d4 @ post \<and>
              (\<forall>c \<in> set mid. is_space c))))"
proof -
  let ?src = "''module m (input a,input wire [7:0][0:3] mem,output [1:0] b);''"
  obtain fin where fin: "result (run ?src) = Inr fin"
    and ins: "inputDictionary fin = [(''a'', \<lparr>signalType = [], signalDimension = []\<rparr>),
                (''mem'', \<lparr>signalType = ''wire'', signalDimension = ''[7:0][0:3]''\<rparr>)]"
    by (simp add: dimensions_run)
  have a: "(''a'', \<lparr>signalType = [], signalDimension = []\<rparr>) \<in> set (inputDictionary fin)"
    and mem: "(''mem'', \<lparr>signalType = ''wire'', signalDimension = ''[7:0][0:3]''\<rparr>)
        \<in> set (inputDictionary fin)"
    by (simp_all add: ins)
  note inst = dimension_is_concatenation_of_captures [OF fin, THEN conjunct1, THEN bspec]
  from inst [OF mem] have m: "\<exists>f \<in> set (scan moduleInputsPattern [] ?src).
        ''mem'' = group_text f 5 \<and>
        ''[7:0][0:3]'' = (case captures f 3 of None \<Rightarrow> [] | Some d \<Rightarrow> d) @
                        (case captures f 4 of None \<Rightarrow> [] | Some d \<Rightarrow> d) \<and>
        (\<forall>d3 d4. captures f 3 = Some d3 \<and> captures f 4 = Some d4 \<longrightarrow>
           (\<exists>pre mid post. matched f = pre @ d3 @ mid @ d4 @ post \<and>
              (\<forall>c \<in> set mid. is_space c)))"
    by (simp only: prod.case signal.simps)
  from inst [OF a] have s: "\<exists>f \<in> set (scan moduleInputsPattern [] ?src).
        ''a'' = group_text f 5 \<and>
        [] = (case captures f 3 of None \<Rightarrow> [] | Some d \<Rightarrow> d) @
             (case captures f 4 of None \<Rightarrow> [] | Some d \<Rightarrow> d) \<and>
        (\<forall>d3 d4. captures f 3 = Some d3 \<and> captures f 4 = Some d4 \<longrightarrow>
           (\<exists>pre mid post. matched f = pre @ d3 @ mid @ d4 @ post \<and>
              (\<forall>c \<in> set mid. is_space c)))"
    by (simp only: prod.case signal.simps)
  show ?thesis
    by (rule exI [of _ fin]) (intro conjI fin a mem m s)
qed

section \<open>The storage class of a port\<close>

lemma entry_storage:
  assumes "(name, v) \<in> set (form_dictionary (findall_tuples (portPattern kw) 5 src)
      (length (findall_tuples (portPattern kw) 5 src)))"
  shows "\<exists>f \<in> set (scan (portPattern kw) [] src). name = group_text f 5 \<and>
      (captures f 2 = None \<longrightarrow> signalType v = []) \<and>
      (signalType v = [] \<or> signalType v = ''wire'' \<or> signalType v = ''reg'') \<and>
      (signalType v \<noteq> [] \<longrightarrow> captures f 2 = Some (signalType v) \<and>
         (\<exists>sp rest. matched f = kw @ sp @ signalType v @ rest \<and> sp \<noteq> [] \<and>
            (\<forall>c \<in> set sp. is_space c)))"
proof -
  from dictionary_entry_found [OF assms] obtain f where
    f: "f \<in> set (scan (portPattern kw) [] src)" "name = group_text f 5"
    and ty: "signalType v = group_text f 2" by blast
  note st = found_storage [OF f(1)]
  from st have "captures f 2 = None \<or> captures f 2 = Some ''wire'' \<or> captures f 2 = Some ''reg''"
    by (rule conjunct1)
  then consider (absent) "captures f 2 = None"
    | (present) w where "w = ''wire'' \<or> w = ''reg''" "captures f 2 = Some w"
    by (elim disjE) simp_all
  then have "(captures f 2 = None \<longrightarrow> signalType v = []) \<and>
      (signalType v = [] \<or> signalType v = ''wire'' \<or> signalType v = ''reg'') \<and>
      (signalType v \<noteq> [] \<longrightarrow> captures f 2 = Some (signalType v) \<and>
         (\<exists>sp rest. matched f = kw @ sp @ signalType v @ rest \<and> sp \<noteq> [] \<and>
            (\<forall>c \<in> set sp. is_space c)))"
  proof cases
    case absent
    then have "signalType v = []" using ty by (simp add: group_text_def)
    with absent show ?thesis by simp
  next
    case present
    then have eq: "signalType v = w" using ty by (simp add: group_text_def)
    from st have "\<forall>w. captures f 2 = Some w \<longrightarrow>
        (\<exists>sp rest. matched f = kw @ sp @ w @ rest \<and> sp \<noteq> [] \<and> (\<forall>c \<in> set sp. is_space c))"
      by (rule conjunct2)
    with present(2) have "\<exists>sp rest. matched f = kw @ sp @ w @ rest \<and> sp \<noteq> [] \<and>
        (\<forall>c \<in> set sp. is_space c)" by (elim allE [of _ w] impE)
    with present eq show ?thesis by simp
  qed
  with f(2) have "name = group_text f 5 \<and>
      (captures f 2 = None \<longrightarrow> signalType v = []) \<and>
      (signalType v = [] \<or> signalType v = ''wire'' \<or> signalType v = ''reg'') \<and>
      (signalType v \<noteq> [] \<longrightarrow> captures f 2 = Some (signalType v) \<and>
         (\<exists>sp rest. matched f = kw @ sp @ signalType v @ rest \<and> sp \<noteq> [] \<and>
            (\<forall>c \<in> set sp. is_space c)))"
    by (rule conjI)
  with f(1) show ?thesis by (rule bexI [rotated])
qed

lemma entry_whole_word:
  assumes "(name, v) \<in> set (form_dictionary (findall_tuples (portPattern kw) 5 src)
      (length (findall_tuples (portPattern kw) 5 src)))"
  shows "\<exists>f \<in> set (scan (portPattern kw) [] src). name = group_text f 5 \<and>
      (captures f 2 = None \<longrightarrow> signalType v = []) \<and>
      (signalType v = [] \<or> signalType v = ''wire'' \<or> signalType v = ''reg'') \<and>
      (signalType v \<noteq> [] \<longrightarrow> captures f 2 = Some (signalType v) \<and>
         (\<exists>sp c rest. matched f = kw @ sp @ signalType v @ c # rest \<and> sp \<noteq> [] \<and>
            (\<forall>x \<in> set sp. is_space x) \<and> \<not> is_word c)) \<and>
      (\<not> (\<exists>sp w c rest. (w = ''wire'' \<or> w = ''reg'') \<and> matched f = kw @ sp @ w @ c # rest \<and>
            sp \<noteq> [] \<and> (\<forall>x \<in> set sp. is_space x) \<and> \<not> is_word c) \<longrightarrow>
         signalType v = [])"
proof -
  from dictionary_entry_found [OF assms] obtain f where
    f: "f \<in> set (scan (portPattern kw) [] src)" "name = group_text f 5"
    and ty: "signalType v = group_text f 2" by blast
  from found_storage [OF f(1)]
  have "captures f 2 = None \<or> captures f 2 = Some ''wire'' \<or> captures f 2 = Some ''reg''"
    by (rule conjunct1)
  then consider (absent) "captures f 2 = None"
    | (present) w where "w = ''wire'' \<or> w = ''reg''" "captures f 2 = Some w"
    by (elim disjE) simp_all
  then have "(captures f 2 = None \<longrightarrow> signalType v = []) \<and>
      (signalType v = [] \<or> signalType v = ''wire'' \<or> signalType v = ''reg'') \<and>
      (signalType v \<noteq> [] \<longrightarrow> captures f 2 = Some (signalType v) \<and>
         (\<exists>sp c rest. matched f = kw @ sp @ signalType v @ c # rest \<and> sp \<noteq> [] \<and>
            (\<forall>x \<in> set sp. is_space x) \<and> \<not> is_word c)) \<and>
      (\<not> (\<exists>sp w c rest. (w = ''wire'' \<or> w = ''reg'') \<and> matched f = kw @ sp @ w @ c # rest \<and>
            sp \<noteq> [] \<and> (\<forall>x \<in> set sp. is_space x) \<and> \<not> is_word c) \<longrightarrow>
         signalType v = [])"
  proof cases
    case absent
    then have empty: "signalType v = []" using ty by (simp add: group_text_def)
    have c1: "captures f 2 = None \<longrightarrow> signalType v = []"
      using empty by (intro impI)
    have c2: "signalType v = [] \<or> signalType v = ''wire'' \<or> signalType v = ''reg''"
      using empty by (rule disjI1)
    have c3: "signalType v \<noteq> [] \<longrightarrow> captures f 2 = Some (signalType v) \<and>
         (\<exists>sp c rest. matched f = kw @ sp @ signalType v @ c # rest \<and> sp \<noteq> [] \<and>
            (\<forall>x \<in> set sp. is_space x) \<and> \<not> is_word c)"
      using empty by (intro impI) (erule notE)
    have c4: "\<not> (\<exists>sp w c rest. (w = ''wire'' \<or> w = ''reg'') \<and> matched f = kw @ sp @ w @ c # rest \<and>
            sp \<noteq> [] \<and> (\<forall>x \<in> set sp. is_space x) \<and> \<not> is_word c) \<longrightarrow>
         signalType v = []"
      using empty by (intro impI)
    from c1 c2 c3 c4 show ?thesis by (intro conjI)
  next
    case present
    then have eq: "signalType v = w" using ty by (simp add: group_text_def)
    from found_whole_word [OF f(1) present(2)] obtain sp c rest where
      wd: "matched f = kw @ sp @ w @ c # rest \<and> sp \<noteq> [] \<and> (\<forall>x \<in> set sp. is_space x) \<and>
        \<not> is_word c" by blast
    from present(1) wd have "(w = ''wire'' \<or> w = ''reg'') \<and>
        matched f = kw @ sp @ w @ c # rest \<and> sp \<noteq> [] \<and> (\<forall>x \<in> set sp. is_space x) \<and> \<not> is_word c"
      by (rule conjI)
    then have whole: "\<exists>sp w c rest. (w = ''wire'' \<or> w = ''reg'') \<and>
        matched f = kw @ sp @ w @ c # rest \<and> sp \<noteq> [] \<and> (\<forall>x \<in> set sp. is_space x) \<and> \<not> is_word c"
      by (intro exI)
    from wd have one: "\<exists>sp c rest. matched f = kw @ sp @ w @ c # rest \<and> sp \<noteq> [] \<and>
        (\<forall>x \<in> set sp. is_space x) \<and> \<not> is_word c"
      by (intro exI)
    have c1: "captures f 2 = None \<longrightarrow> signalType v = []" using present(2) by simp
    have c2: "signalType v = [] \<or> signalType v = ''wire'' \<or> signalType v = ''reg''"
      using present(1) unfolding eq by (rule disjI2)
    have c3: "signalType v \<noteq> [] \<longrightarrow> captures f 2 = Some (signalType v) \<and>
         (\<exists>sp c rest. matched f = kw @ sp @ signalType v @ c # rest \<and> sp \<noteq> [] \<and>
            (\<forall>x \<in> set sp. is_space x) \<and> \<not> is_word c)"
      unfolding eq using present(2) one by (intro impI conjI)
    have c4: "\<not> (\<exists>sp w c rest. (w = ''wire'' \<or> w = ''reg'') \<and> matched f = kw @ sp @ w @ c # rest \<and>
            sp \<noteq> [] \<and> (\<forall>x \<in> set sp. is_space x) \<and> \<not> is_word c) \<longrightarrow>
         signalType v = []"
      using whole by (intro impI) (erule notE)
    from c1 c2 c3 c4 show ?thesis by (intro conjI)
  qed
  with f(2) have body: "name = group_text f 5 \<and>
      (captures f 2 = None \<longrightarrow> signalType v = []) \<and>
      (signalType v = [] \<or> signalType v = ''wire'' \<or> signalType v = ''reg'') \<and>
      (signalType v \<noteq> [] \<longrightarrow> captures f 2 = Some (signalType v) \<and>
         (\<exists>sp c rest. matched f = kw @ sp @ signalType v @ c # rest \<and> sp \<noteq> [] \<and>
            (\<forall>x \<in> set sp. is_space x) \<and> \<not> is_word c)) \<and>
      (\<not> (\<exists>sp w c rest. (w = ''wire'' \<or> w = ''reg'') \<and> matched f = kw @ sp @ w @ c # rest \<and>
            sp \<noteq> [] \<and> (\<forall>x \<in> set sp. is_space x) \<and> \<not> is_word c) \<longrightarrow>
         signalType v = [])"
    by (rule conjI)
  show ?thesis by (rule bexI) (rule body, rule f(1))
qed

text \<open>
  Claim C6. In a run that ends with the report, every entry of either dictionary comes from
  a match of its pattern. Where group 2 of that match took no part, the signal type is the
  empty string. The signal type is never anything but the empty string, \<open>wire\<close> or
  \<open>reg\<close>, and it is \<open>wire\<close> or \<open>reg\<close> only where the matched text is the keyword,
  whitespace, that word, and then a character that is not a word character: the word
  boundary of \<^verbatim>\<open>wire\b\<close> and \<^verbatim>\<open>reg\b\<close>. So a declaration that does not carry
  \<open>wire\<close> or \<open>reg\<close> as a whole word after its keyword has the empty signal type;
  \<open>input regs\<close> declares the port \<open>regs\<close>, not a \<open>reg\<close> port \<open>s\<close>.
\<close>

theorem absent_storage_class_is_unspecified:
  assumes "result (run src) = Inr fin"
  shows "(\<forall>(name, v) \<in> set (inputDictionary fin).
            \<exists>f \<in> set (scan moduleInputsPattern [] src). name = group_text f 5 \<and>
              (captures f 2 = None \<longrightarrow> signalType v = []) \<and>
              (signalType v = [] \<or> signalType v = ''wire'' \<or> signalType v = ''reg'') \<and>
              (signalType v \<noteq> [] \<longrightarrow> captures f 2 = Some (signalType v) \<and>
                 (\<exists>sp c rest. matched f = ''input'' @ sp @ signalType v @ c # rest \<and> sp \<noteq> [] \<and>
                    (\<forall>x \<in> set sp. is_space x) \<and> \<not> is_word c)) \<and>
              (\<not> (\<exists>sp w c rest. (w = ''wire'' \<or> w = ''reg'') \<and> matched f = ''input'' @ sp @ w @ c # rest \<and>
                    sp \<noteq> [] \<and> (\<forall>x \<in> set sp. is_space x) \<and> \<not> is_word c) \<longrightarrow>
                 signalType v = [])) \<and>
         (\<forall>(name, v) \<in> set (outputDictionary fin).
            \<exists>f \<in> set (scan moduleOutputsPattern [] src). name = group_text f 5 \<and>
              (captures f 2 = None \<longrightarrow> signalType v = []) \<and>
              (signalType v = [] \<or> signalType v = ''wire'' \<or> signalType v = ''reg'') \<and>
              (signalType v \<noteq> [] \<longrightarrow> captures f 2 = Some (signalType v) \<and>
                 (\<exists>sp c rest. matched f = ''output'' @ sp @ signalType v @ c # rest \<and> sp \<noteq> [] \<and>
                    (\<forall>x \<in> set sp. is_space x) \<and> \<not> is_word c)) \<and>
              (\<not> (\<exists>sp w c rest. (w = ''wire'' \<or> w = ''reg'') \<and> matched f = ''output'' @ sp @ w @ c # rest \<and>
                    sp \<noteq> [] \<and> (\<forall>x \<in> set sp. is_space x) \<and> \<not> is_word c) \<longrightarrow>
                 signalType v = []))"
proof -
  from run_Inr [OF assms] have
    i: "inputDictionary fin = form_dictionary (findall_tuples (portPattern ''input'') 5 src)
          (length (findall_tuples (portPattern ''input'') 5 src))"
    and out: "outputDictionary fin = form_dictionary (findall_tuples (portPattern ''output'') 5 src)
          (length (findall_tuples (portPattern ''output'') 5 src))"
    by (auto simp: moduleInputsPattern_def moduleOutputsPattern_def)
  show ?thesis
    unfolding i out moduleInputsPattern_def moduleOutputsPattern_def
  proof (rule conjI)
    show "\<forall>(name, v) \<in> set (form_dictionary (findall_tuples (portPattern ''input'') 5 src)
          (length (findall_tuples (portPattern ''input'') 5 src))).
        \<exists>f \<in> set (scan (portPattern ''input'') [] src). name = group_text f 5 \<and>
          (captures f 2 = None \<longrightarrow> signalType v = []) \<and>
          (signalType v = [] \<or> signalType v = ''wire'' \<or> signalType v = ''reg'') \<and>
          (signalType v \<noteq> [] \<longrightarrow> captures f 2 = Some (signalType v) \<and>
             (\<exists>sp c rest. matched f = ''input'' @ sp @ signalType v @ c # rest \<and> sp \<noteq> [] \<and>
                (\<forall>x \<in> set sp. is_space x) \<and> \<not> is_word c)) \<and>
          (\<not> (\<exists>sp w c rest. (w = ''wire'' \<or> w = ''reg'') \<and> matched f = ''input'' @ sp @ w @ c # rest \<and>
                sp \<noteq> [] \<and> (\<forall>x \<in> set sp. is_space x) \<and> \<not> is_word c) \<longrightarrow>
             signalType v = [])"
      by (intro ballI, clarify) (rule entry_whole_word)
    show "\<forall>(name, v) \<in> set (form_dictionary (findall_tuples (portPattern ''output'') 5 src)
          (length (findall_tuples (portPattern ''output'') 5 src))).
        \<exists>f \<in> set (scan (portPattern ''output'') [] src). name = group_text f 5 \<and>
          (captures f 2 = None \<longrightarrow> signalType v = []) \<and>
          (signalType v = [] \<or> signalType v = ''wire'' \<or> signalType v = ''reg'') \<and>
          (signalType v \<noteq> [] \<longrightarrow> captures f 2 = Some (signalType v) \<and>
             (\<exists>sp c rest. matched f = ''output'' @ sp @ signalType v @ c # rest \<and> sp \<noteq> [] \<and>
                (\<forall>x \<in> set sp. is_space x) \<and> \<not> is_word c)) \<and>
          (\<not> (\<exists>sp w c rest. (w = ''wire'' \<or> w = ''reg'') \<and> matched f = ''output'' @ sp @ w @ c # rest \<and>
                sp \<noteq> [] \<and> (\<forall>x \<in> set sp. is_space x) \<and> \<not> is_word c) \<longrightarrow>
             signalType v = [])"
      by (intro ballI, clarify) (rule entry_whole_word)
  qed
qed

lemma canonical_tight_run:
  "run ''module foo (input a,input [7:0] b,output reg busy);'' =
     \<lparr>printed = [JobDoneMsg ''foo'' ''foo_io.csv'', GoodbyeMsg ''foo_io.csv''],
      result = Inr \<lparr>moduleName = ''foo'',
        inputDictionary = [(''a'', \<lparr>signalType = [], signalDimension = []\<rparr>),
                           (''b'', \<lparr>signalType = [], signalDimension = ''[7:0]''\<rparr>)],
        outputDictionary = [(''busy'', \<lparr>signalType = ''reg'', signalDimension = []\<rparr>)],
        outputCsvFileName = ''foo_io.csv'',
        csvRows = [[''Signal Name'', ''Input/Output'', ''Signal Type'', ''Dimension''],
                   [''a'', ''Input'', [], []], [''b'', ''Input'', [], ''[7:0]''],
                   [''busy'', ''Output'', ''reg'', []]]\<rparr>\<rparr>"
  by code_simp

lemma regs_run:
  "run ''module m (input regs,output reg busy);'' =
     \<lparr>printed = [JobDoneMsg ''m'' ''m_io.csv'', GoodbyeMsg ''m_io.csv''],
      result = Inr \<lparr>moduleName = ''m'',
        inputDictionary = [(''regs'', \<lparr>signalType = [], signalDimension = []\<rparr>)],
        outputDictionary = [(''busy'', \<lparr>signalType = ''reg'', signalDimension = []\<rparr>)],
        outputCsvFileName = ''m_io.csv'',
        csvRows = [[''Signal Name'', ''Input/Output'', ''Signal Type'', ''Dimension''],
                   [''regs'', ''Input'', [], []], [''busy'', ''Output'', ''reg'', []]]\<rparr>\<rparr>"
  by code_simp

text \<open>
  \<open>input regs\<close> has no storage class, for \<open>reg\<close> is not a whole word there, and
  \<open>output reg busy\<close> has one: the entry of \<open>regs\<close> carries the empty signal type, and
  the entry of \<open>busy\<close> comes from a match whose text is \<open>output\<close>, whitespace,
  \<open>reg\<close>, a character that is not a word character, and a rest.
\<close>

theorem absent_storage_class_is_unspecified_witness:
  "\<exists>fin. result (run ''module m (input regs,output reg busy);'') = Inr fin \<and>
     (''regs'', \<lparr>signalType = [], signalDimension = []\<rparr>) \<in> set (inputDictionary fin) \<and>
     (''busy'', \<lparr>signalType = ''reg'', signalDimension = []\<rparr>) \<in> set (outputDictionary fin) \<and>
     (\<exists>f \<in> set (scan moduleInputsPattern [] ''module m (input regs,output reg busy);'').
        ''regs'' = group_text f 5) \<and>
     (\<exists>f \<in> set (scan moduleOutputsPattern [] ''module m (input regs,output reg busy);'').
        ''busy'' = group_text f 5 \<and> captures f 2 = Some ''reg'' \<and>
        (\<exists>sp c rest. matched f = ''output'' @ sp @ ''reg'' @ c # rest \<and> sp \<noteq> [] \<and>
           (\<forall>x \<in> set sp. is_space x) \<and> \<not> is_word c))"
proof -
  let ?src = "''module m (input regs,output reg busy);''"
  obtain fin where fin: "result (run ?src) = Inr fin"
    and ins: "inputDictionary fin = [(''regs'', \<lparr>signalType = [], signalDimension = []\<rparr>)]"
    and outs: "outputDictionary fin = [(''busy'', \<lparr>signalType = ''reg'', signalDimension = []\<rparr>)]"
    by (simp add: regs_run)
  have a: "(''regs'', \<lparr>signalType = [], signalDimension = []\<rparr>) \<in> set (inputDictionary fin)"
    by (simp add: ins)
  have busy: "(''busy'', \<lparr>signalType = ''reg'', signalDimension = []\<rparr>) \<in> set (outputDictionary fin)"
    by (simp add: outs)
  note inst = absent_storage_class_is_unspecified [OF fin]
  from inst [THEN conjunct1, THEN bspec, OF a] obtain f where
    "f \<in> set (scan moduleInputsPattern [] ?src)" "''regs'' = group_text f 5"
    unfolding prod.case signal.simps by (elim bexE conjE) (rule that; assumption)
  then have fa: "\<exists>f \<in> set (scan moduleInputsPattern [] ?src). ''regs'' = group_text f 5"
    by (rule bexI [rotated])
  from inst [THEN conjunct2, THEN bspec, OF busy] obtain f where
    f: "f \<in> set (scan moduleOutputsPattern [] ?src)" "''busy'' = group_text f 5"
    and st: "''reg'' \<noteq> [] \<longrightarrow> captures f 2 = Some ''reg'' \<and>
      (\<exists>sp c rest. matched f = ''output'' @ sp @ ''reg'' @ c # rest \<and> sp \<noteq> [] \<and>
         (\<forall>x \<in> set sp. is_space x) \<and> \<not> is_word c)"
    unfolding prod.case signal.simps by (elim bexE conjE) (rule that; assumption)
  have "''reg'' \<noteq> []" by simp
  with st have "captures f 2 = Some ''reg'' \<and>
      (\<exists>sp c rest. matched f = ''output'' @ sp @ ''reg'' @ c # rest \<and> sp \<noteq> [] \<and>
         (\<forall>x \<in> set sp. is_space x) \<and> \<not> is_word c)" by (rule mp)
  with f have fb: "\<exists>f \<in> set (scan moduleOutputsPattern [] ?src).
        ''busy'' = group_text f 5 \<and> captures f 2 = Some ''reg'' \<and>
        (\<exists>sp c rest. matched f = ''output'' @ sp @ ''reg'' @ c # rest \<and> sp \<noteq> [] \<and>
           (\<forall>x \<in> set sp. is_space x) \<and> \<not> is_word c)"
    by (intro bexI [of _ f] conjI) (elim conjE, assumption)+
  show ?thesis
    by (rule exI [of _ fin]) (intro conjI fin a busy fa fb)
qed

section \<open>The canonical header\<close>

text \<open>
  Claim C2, as stated, fails: in \<open>module foo (input a, input [7:0] b, output reg busy);\<close>
  the second \<open>input\<close> and the \<open>output\<close> follow a space, which the lookbehind of the
  patterns excludes. The output pattern has no match and the run ends in the
  \<^verbatim>\<open>NameError\<close> of the loop over the outputs.
\<close>

theorem canonical_header_counterexample:
  "findall_tuples moduleInputsPattern 5 ''module foo (input a, input [7:0] b, output reg busy);'' =
     [[''input'', [], [], [], ''a'']] \<and>
   findall_tuples moduleOutputsPattern 5 ''module foo (input a, input [7:0] b, output reg busy);'' = [] \<and>
   run ''module foo (input a, input [7:0] b, output reg busy);'' =
     \<lparr>printed = [NoOutputsIdentified], result = Inl (NameError ''numOutputs'')\<rparr>"
  by code_simp

text \<open>
  Claim C2, amended. With the spaces of the claim, the module-name pattern yields \<open>foo\<close>, the
  input pattern yields the one match \<open>a\<close> (no signal type, no dimension) and the output
  pattern yields none. Written without a space before \<open>input\<close> and \<open>output\<close>, the header
  gives the inputs \<open>a\<close> (scalar, no signal type) and \<open>b\<close> (\<open>[7:0]\<close>, no signal type)
  and the output \<open>busy\<close> (scalar, \<open>reg\<close>), in this order.
\<close>

theorem canonical_header_without_spaces:
  "findall_one moduleNamePattern ''module foo (input a, input [7:0] b, output reg busy);'' = [''foo''] \<and>
   findall_tuples moduleInputsPattern 5 ''module foo (input a, input [7:0] b, output reg busy);'' =
     [[''input'', [], [], [], ''a'']] \<and>
   findall_tuples moduleOutputsPattern 5 ''module foo (input a, input [7:0] b, output reg busy);'' = [] \<and>
   result (run ''module foo (input a,input [7:0] b,output reg busy);'') =
     Inr \<lparr>moduleName = ''foo'',
        inputDictionary = [(''a'', \<lparr>signalType = [], signalDimension = []\<rparr>),
                           (''b'', \<lparr>signalType = [], signalDimension = ''[7:0]''\<rparr>)],
        outputDictionary = [(''busy'', \<lparr>signalType = ''reg'', signalDimension = []\<rparr>)],
        outputCsvFileName = ''foo_io.csv'',
        csvRows = [[''Signal Name'', ''Input/Output'', ''Signal Type'', ''Dimension''],
                   [''a'', ''Input'', [], []], [''b'', ''Input'', [], ''[7:0]''],
                   [''busy'', ''Output'', ''reg'', []]]\<rparr>"
  by code_simp

section \<open>The report\<close>

text \<open>
  Claim C8. In a run that ends with the report, the rows are the header row, then one row for
  each entry of the input dictionary in its order, then one row for each entry of the output
  dictionary in its order; a row holds the name, \<open>Input\<close> or \<open>Output\<close>, the signal type
  and the dimension. The signal type cell is the empty string, \<open>wire\<close> or \<open>reg\<close>, and it
  is empty where the match the entry comes from has no storage class.
\<close>

theorem report_rows_header_inputs_outputs:
  assumes "result (run src) = Inr fin"
  shows "csvRows fin =
           [''Signal Name'', ''Input/Output'', ''Signal Type'', ''Dimension''] #
           map (\<lambda>(name, v). [name, ''Input'', signalType v, signalDimension v]) (inputDictionary fin) @
           map (\<lambda>(name, v). [name, ''Output'', signalType v, signalDimension v]) (outputDictionary fin) \<and>
         outputCsvFileName fin = moduleName fin @ ''_io.csv'' \<and>
         (\<forall>(name, v) \<in> set (inputDictionary fin).
            (signalType v = [] \<or> signalType v = ''wire'' \<or> signalType v = ''reg'') \<and>
            (\<exists>f \<in> set (scan moduleInputsPattern [] src). name = group_text f 5 \<and>
               (captures f 2 = None \<longrightarrow>
                  [name, ''Input'', signalType v, signalDimension v] ! 2 = []))) \<and>
         (\<forall>(name, v) \<in> set (outputDictionary fin).
            (signalType v = [] \<or> signalType v = ''wire'' \<or> signalType v = ''reg'') \<and>
            (\<exists>f \<in> set (scan moduleOutputsPattern [] src). name = group_text f 5 \<and>
               (captures f 2 = None \<longrightarrow>
                  [name, ''Output'', signalType v, signalDimension v] ! 2 = [])))"
proof -
  from run_Inr [OF assms] obtain n where
    i: "inputDictionary fin = form_dictionary (findall_tuples (portPattern ''input'') 5 src)
          (length (findall_tuples (portPattern ''input'') 5 src))"
    and out: "outputDictionary fin = form_dictionary (findall_tuples (portPattern ''output'') 5 src)
          (length (findall_tuples (portPattern ''output'') 5 src))"
    and nm: "outputCsvFileName fin = n @ ''_io.csv''" "moduleName fin = n"
    and rows: "csvRows fin = csv_rows (inputDictionary fin) (outputDictionary fin)"
    by (auto simp: moduleInputsPattern_def moduleOutputsPattern_def)
  have cell: "(signalType v = [] \<or> signalType v = ''wire'' \<or> signalType v = ''reg'') \<and>
      (\<exists>f \<in> set (scan (portPattern kw) [] src). name = group_text f 5 \<and>
         (captures f 2 = None \<longrightarrow> [name, dir, signalType v, signalDimension v] ! 2 = []))"
    if "(name, v) \<in> set (form_dictionary (findall_tuples (portPattern kw) 5 src)
          (length (findall_tuples (portPattern kw) 5 src)))"
    for kw name v dir
  proof -
    from entry_storage [OF that] obtain f where
      f: "f \<in> set (scan (portPattern kw) [] src)" "name = group_text f 5"
      and none: "captures f 2 = None \<longrightarrow> signalType v = []"
      and ty: "signalType v = [] \<or> signalType v = ''wire'' \<or> signalType v = ''reg''"
      by (elim bexE conjE) (rule that; assumption)
    have two: "[name, dir, signalType v, signalDimension v] ! 2 = signalType v"
      by (simp add: numeral_2_eq_2)
    from f(2) none have "name = group_text f 5 \<and>
        (captures f 2 = None \<longrightarrow> [name, dir, signalType v, signalDimension v] ! 2 = [])"
      unfolding two by (rule conjI)
    with f(1) have "\<exists>f \<in> set (scan (portPattern kw) [] src). name = group_text f 5 \<and>
         (captures f 2 = None \<longrightarrow> [name, dir, signalType v, signalDimension v] ! 2 = [])"
      by (rule bexI [rotated])
    with ty show ?thesis by (rule conjI)
  qed
  have r: "csvRows fin =
           [''Signal Name'', ''Input/Output'', ''Signal Type'', ''Dimension''] #
           map (\<lambda>(name, v). [name, ''Input'', signalType v, signalDimension v]) (inputDictionary fin) @
           map (\<lambda>(name, v). [name, ''Output'', signalType v, signalDimension v]) (outputDictionary fin)"
    unfolding rows csv_rows_def by (rule refl)
  have fl: "outputCsvFileName fin = moduleName fin @ ''_io.csv''"
    unfolding nm by (rule refl)
  have ci: "\<forall>(name, v) \<in> set (inputDictionary fin).
            (signalType v = [] \<or> signalType v = ''wire'' \<or> signalType v = ''reg'') \<and>
            (\<exists>f \<in> set (scan moduleInputsPattern [] src). name = group_text f 5 \<and>
               (captures f 2 = None \<longrightarrow>
                  [name, ''Input'', signalType v, signalDimension v] ! 2 = []))"
    unfolding i moduleInputsPattern_def using cell [where dir = "''Input''"] by (intro ballI) (clarify, assumption)
  have co: "\<forall>(name, v) \<in> set (outputDictionary fin).
            (signalType v = [] \<or> signalType v = ''wire'' \<or> signalType v = ''reg'') \<and>
            (\<exists>f \<in> set (scan moduleOutputsPattern [] src). name = group_text f 5 \<and>
               (captures f 2 = None \<longrightarrow>
                  [name, ''Output'', signalType v, signalDimension v] ! 2 = []))"
    unfolding out moduleOutputsPattern_def using cell [where dir = "''Output''"] by (intro ballI) (clarify, assumption)
  from r fl ci co show ?thesis by (intro conjI)
qed

text \<open>
  The header without the spaces: the header row, the rows of \<open>a\<close> and \<open>b\<close>, then the row
  of \<open>busy\<close>; the signal type cells of \<open>a\<close> and \<open>b\<close> are empty.
\<close>

theorem report_rows_header_inputs_outputs_witness:
  "\<exists>fin. result (run ''module foo (input a,input [7:0] b,output reg busy);'') = Inr fin \<and>
     csvRows fin = [[''Signal Name'', ''Input/Output'', ''Signal Type'', ''Dimension''],
                    [''a'', ''Input'', [], []], [''b'', ''Input'', [], ''[7:0]''],
                    [''busy'', ''Output'', ''reg'', []]] \<and>
     outputCsvFileName fin = ''foo_io.csv''"
proof -
  let ?src = "''module foo (input a,input [7:0] b,output reg busy);''"
  obtain fin where fin: "result (run ?src) = Inr fin"
    and ins: "inputDictionary fin = [(''a'', \<lparr>signalType = [], signalDimension = []\<rparr>),
                (''b'', \<lparr>signalType = [], signalDimension = ''[7:0]''\<rparr>)]"
    and outs: "outputDictionary fin = [(''busy'', \<lparr>signalType = ''reg'', signalDimension = []\<rparr>)]"
    and name: "moduleName fin = ''foo''"
    by (simp add: canonical_tight_run)
  note inst = report_rows_header_inputs_outputs [OF fin]
  from inst have rows: "csvRows fin =
      [[''Signal Name'', ''Input/Output'', ''Signal Type'', ''Dimension''],
       [''a'', ''Input'', [], []], [''b'', ''Input'', [], ''[7:0]''],
       [''busy'', ''Output'', ''reg'', []]]"
    by (simp add: ins outs)
  from inst have fl: "outputCsvFileName fin = ''foo_io.csv''"
    by (simp add: name)
  show ?thesis
    by (rule exI [of _ fin]) (intro conjI fin rows fl)
qed

section \<open>Parameters\<close>

text \<open>
  Claim C9, as stated, fails: the parameter pattern is compiled and never applied, and the
  message about parameters is defined and never printed. For a module without parameters
  the pattern would have no match, and the run prints nothing about it.
\<close>

theorem absent_parameters_not_reported_counterexample:
  "findall_one moduleParamsPattern ''module m (input a,output b);'' = [] \<and>
   printed (run ''module m (input a,output b);'') =
     [JobDoneMsg ''m'' ''m_io.csv'', GoodbyeMsg ''m_io.csv'']"
  by code_simp

text \<open>
  Claim C9, amended. No run prints the message about parameters, and a run depends on the
  source text through the matches of the module-name, input and output patterns only: two
  texts with the same matches of these three have the same run, whatever parameters they
  declare.
\<close>

theorem parameters_neither_reported_nor_used:
  "NoParamsFound \<notin> set (printed (run src)) \<and>
   (findall_one moduleNamePattern src = findall_one moduleNamePattern src' \<and>
    findall_tuples moduleInputsPattern 5 src = findall_tuples moduleInputsPattern 5 src' \<and>
    findall_tuples moduleOutputsPattern 5 src = findall_tuples moduleOutputsPattern 5 src' \<longrightarrow>
    run src = run src')"
proof
  show "NoParamsFound \<notin> set (printed (run src))"
  proof (cases "length (findall_one moduleNamePattern src) = 1")
    case False
    then show ?thesis by (simp add: run_not_one)
  next
    case True
    then obtain n where n: "findall_one moduleNamePattern src = [n]"
      by (cases "findall_one moduleNamePattern src") auto
    consider (a) "findall_tuples moduleInputsPattern 5 src = []"
      | (b) "findall_tuples moduleInputsPattern 5 src \<noteq> []"
            "findall_tuples moduleOutputsPattern 5 src = []"
      | (c) "findall_tuples moduleInputsPattern 5 src \<noteq> []"
            "findall_tuples moduleOutputsPattern 5 src \<noteq> []"
      by blast
    then show ?thesis
    proof cases
      case a
      then show ?thesis using run_no_inputs [OF n a] by simp
    next
      case b
      then show ?thesis using run_no_outputs [OF n b] by simp
    next
      case c
      then show ?thesis using run_report [OF n refl c(1) refl c(2)] by simp
    qed
  qed
  show "findall_one moduleNamePattern src = findall_one moduleNamePattern src' \<and>
    findall_tuples moduleInputsPattern 5 src = findall_tuples moduleInputsPattern 5 src' \<and>
    findall_tuples moduleOutputsPattern 5 src = findall_tuples moduleOutputsPattern 5 src' \<longrightarrow>
    run src = run src'"
  proof
    assume "findall_one moduleNamePattern src = findall_one moduleNamePattern src' \<and>
      findall_tuples moduleInputsPattern 5 src = findall_tuples moduleInputsPattern 5 src' \<and>
      findall_tuples moduleOutputsPattern 5 src = findall_tuples moduleOutputsPattern 5 src'"
    then have "findall_one moduleNamePattern src = findall_one moduleNamePattern src'"
      and "findall_tuples moduleInputsPattern 5 src = findall_tuples moduleInputsPattern 5 src'"
      and "findall_tuples moduleOutputsPattern 5 src = findall_tuples moduleOutputsPattern 5 src'"
      by simp_all
    then show "run src = run src'"
      unfolding run_def by (simp only:)
  qed
qed

lemma with_parameter_matches:
  "findall_one moduleParamsPattern ''module m #(parameter W = 8) (input a,output b);'' = [''W''] \<and>
   findall_one moduleNamePattern ''module m #(parameter W = 8) (input a,output b);'' = [''m''] \<and>
   findall_tuples moduleInputsPattern 5 ''module m #(parameter W = 8) (input a,output b);'' =
     [[''input'', [], [], [], ''a'']] \<and>
   findall_tuples moduleOutputsPattern 5 ''module m #(parameter W = 8) (input a,output b);'' =
     [[''output'', [], [], [], ''b'']]"
  by code_simp

lemma without_parameter_matches:
  "findall_one moduleParamsPattern ''module m (input a,output b);'' = [] \<and>
   findall_one moduleNamePattern ''module m (input a,output b);'' = [''m''] \<and>
   findall_tuples moduleInputsPattern 5 ''module m (input a,output b);'' =
     [[''input'', [], [], [], ''a'']] \<and>
   findall_tuples moduleOutputsPattern 5 ''module m (input a,output b);'' =
     [[''output'', [], [], [], ''b'']]"
  by code_simp

text \<open>
  A module with the parameter \<open>W\<close> and the same module without it: the parameter pattern
  would match in the first only, and the two runs are the same.
\<close>

theorem parameters_neither_reported_nor_used_witness:
  "findall_one moduleParamsPattern ''module m #(parameter W = 8) (input a,output b);'' = [''W''] \<and>
   findall_one moduleParamsPattern ''module m (input a,output b);'' = [] \<and>
   run ''module m #(parameter W = 8) (input a,output b);'' = run ''module m (input a,output b);'' \<and>
   NoParamsFound \<notin> set (printed (run ''module m #(parameter W = 8) (input a,output b);''))"
proof -
  note inst = parameters_neither_reported_nor_used
    [of "''module m #(parameter W = 8) (input a,output b);''" "''module m (input a,output b);''"]
  from inst have same: "run ''module m #(parameter W = 8) (input a,output b);'' =
      run ''module m (input a,output b);''"
    by (simp add: with_parameter_matches without_parameter_matches)
  from inst have quiet:
    "NoParamsFound \<notin> set (printed (run ''module m #(parameter W = 8) (input a,output b);''))"
    by (rule conjunct1)
  from with_parameter_matches without_parameter_matches same quiet show ?thesis
    by (simp only: simp_thms)
qed

section \<open>The raw match lists\<close>

text \<open>
  Claim C7, as stated, fails: \<^verbatim>\<open>findall\<close> resumes where a match ends, so an occurrence
  that begins inside an earlier match is dropped. In \<open>input wire\<close>, newline, \<open>input b\<close>
  the input pattern matches at offset 0, taking the second \<open>input\<close> as the name of a
  \<open>wire\<close> port, and it matches at offset 11 (\<open>input b\<close>); the raw match list holds the
  first match only.
\<close>

theorem overlapped_occurrence_dropped_counterexample:
  "occurs_at moduleInputsPattern (''input wire'' @ [CHR 0x0A] @ ''input b'') 0 \<and>
   occurs_at moduleInputsPattern (''input wire'' @ [CHR 0x0A] @ ''input b'') 11 \<and>
   map start (scan moduleInputsPattern [] (''input wire'' @ [CHR 0x0A] @ ''input b'')) = [0] \<and>
   findall_tuples moduleInputsPattern 5 (''input wire'' @ [CHR 0x0A] @ ''input b'') =
     [[''input'', ''wire'', [], [], ''input'']]"
  by code_simp

text \<open>
  Claim C7, amended. The raw match list of the input pattern (and of the output pattern) is
  the list of the groups of the scanned matches. These matches stand in source order and do
  not overlap: each begins at or after the end of the one before, and later than it begins.
  Each is the first match of the pattern at its offset. Every offset at which the pattern
  matches is the offset of a scanned match, or lies inside one that begins earlier: an
  occurrence is dropped only where it begins inside an earlier match.
\<close>

theorem port_matches_in_order_without_overlap:
  assumes "r = moduleInputsPattern \<or> r = moduleOutputsPattern"
  shows "findall_tuples r 5 src = map (\<lambda>f. map (group_text f) [1, 2, 3, 4, 5]) (scan r [] src) \<and>
         sorted_wrt (\<lambda>f f'. start f + length (matched f) \<le> start f' \<and> start f < start f')
           (scan r [] src) \<and>
         (\<forall>f \<in> set (scan r [] src). occurs_at r src (start f) \<and>
            first_match r (rev (take (start f) src)) (drop (start f) src) = Some f) \<and>
         (\<forall>p. occurs_at r src p \<longrightarrow>
            (\<exists>f \<in> set (scan r [] src).
               start f = p \<or> (start f < p \<and> p < start f + length (matched f))))"
proof (intro conjI ballI allI impI)
  have five: "[1..<Suc 5] = [1, 2, 3, 4, 5]" by (simp add: upt_rec)
  show "findall_tuples r 5 src = map (\<lambda>f. map (group_text f) [1, 2, 3, 4, 5]) (scan r [] src)"
    unfolding findall_tuples_def five by (rule refl)
  show "sorted_wrt (\<lambda>f f'. start f + length (matched f) \<le> start f' \<and> start f < start f')
      (scan r [] src)"
    by (rule scan_sorted)
next
  fix f assume f: "f \<in> set (scan r [] src)"
  show "occurs_at r src (start f)" by (rule scan_top_found(1) [OF f])
  show "first_match r (rev (take (start f) src)) (drop (start f) src) = Some f"
    by (rule scan_top_found(2) [OF f])
next
  fix p assume "occurs_at r src p"
  then show "\<exists>f \<in> set (scan r [] src).
      start f = p \<or> (start f < p \<and> p < start f + length (matched f))"
    by (rule scan_top_complete)
qed

lemma two_inputs_scan:
  "occurs_at moduleInputsPattern (''input a,'' @ [CHR 0x0A] @ ''input b'') 9 \<and>
   map (\<lambda>f. (start f, matched f))
     (scan moduleInputsPattern [] (''input a,'' @ [CHR 0x0A] @ ''input b'')) =
     [(0, ''input a,''), (9, ''input b'')]"
  by code_simp

text \<open>
  Two inputs on two lines: the pattern matches at offset 9, and a scanned match begins there.
\<close>

theorem port_matches_in_order_without_overlap_witness:
  "occurs_at moduleInputsPattern (''input a,'' @ [CHR 0x0A] @ ''input b'') 9 \<and>
   (\<exists>f \<in> set (scan moduleInputsPattern [] (''input a,'' @ [CHR 0x0A] @ ''input b'')).
      start f = 9 \<or> (start f < 9 \<and> 9 < start f + length (matched f))) \<and>
   map (\<lambda>f. (start f, matched f))
     (scan moduleInputsPattern [] (''input a,'' @ [CHR 0x0A] @ ''input b'')) =
     [(0, ''input a,''), (9, ''input b'')]"
proof -
  let ?src = "''input a,'' @ [CHR 0x0A] @ ''input b''"
  have r: "moduleInputsPattern = moduleInputsPattern \<or> moduleInputsPattern = moduleOutputsPattern"
    by (rule disjI1) (rule refl)
  have occ: "occurs_at moduleInputsPattern ?src 9"
    using two_inputs_scan by (rule conjunct1)
  from port_matches_in_order_without_overlap [OF r, of ?src]
  have "\<forall>p. occurs_at moduleInputsPattern ?src p \<longrightarrow>
      (\<exists>f \<in> set (scan moduleInputsPattern [] ?src).
         start f = p \<or> (start f < p \<and> p < start f + length (matched f)))"
    by (elim conjE)
  then have "occurs_at moduleInputsPattern ?src 9 \<longrightarrow>
      (\<exists>f \<in> set (scan moduleInputsPattern [] ?src).
         start f = 9 \<or> (start f < 9 \<and> 9 < start f + length (matched f)))"
    by (rule spec)
  then have ex: "\<exists>f \<in> set (scan moduleInputsPattern [] ?src).
         start f = 9 \<or> (start f < 9 \<and> 9 < start f + length (matched f))"
    using occ by (rule mp)
  from occ ex two_inputs_scan [THEN conjunct2] show ?thesis
    by (intro conjI)
qed

section \<open>The lookbehind\<close>

lemma rev_take_last:
  assumes "0 < p" and "p \<le> length src"
  shows "rev (take p src) = src ! (p - 1) # rev (take (p - 1) src)"
proof -
  from assms obtain q where q: "p = Suc q" "q < length src" by (cases p) auto
  then show ?thesis by (simp add: take_Suc_conv_app_nth)
qed

lemma guarded_scan:
  assumes "f \<in> set (scan (Seq not_after_prefix r) [] src)" and "0 < start f"
  shows "src ! (start f - 1) \<noteq> CHR '' '' \<and> src ! (start f - 1) \<noteq> CHR ''/'' \<and>
         \<not> in_class letters (src ! (start f - 1))"
proof -
  let ?p = "start f"
  have le: "?p \<le> length src"
    using scan_top_found(1) [OF assms(1)] by (simp add: occurs_at_iff)
  have "first_match (Seq not_after_prefix r) (rev (take ?p src)) (drop ?p src) \<noteq> None"
    using scan_top_found(2) [OF assms(1)] by simp
  then have "matches (Seq not_after_prefix r)
      (src ! (?p - 1) # rev (take (?p - 1) src), drop ?p src, \<lambda>_. None) \<noteq> []"
    unfolding first_match_None rev_take_last [OF assms(2) le] .
  then show ?thesis
    using guarded_after_prefix [of "src ! (?p - 1)" r "rev (take (?p - 1) src)" "drop ?p src" "\<lambda>_. None"]
    by blast
qed

lemma patterns_guarded:
  assumes "r = moduleNamePattern \<or> r = moduleParamsPattern \<or>
           r = moduleInputsPattern \<or> r = moduleOutputsPattern"
  shows "\<exists>r'. r = Seq not_after_prefix r'"
  using assms
  unfolding moduleNamePattern_def moduleParamsPattern_def moduleInputsPattern_def
    moduleOutputsPattern_def portPattern_def
  by (elim disjE) (rule exI, assumption)+

text \<open>
  Claim C10. Each of the four patterns begins with the lookbehind. At a position whose
  preceding character is a space (or \<open>/\<close>, a letter or an underscore) the pattern has no
  match, whatever follows; so no match found in a source text begins right after such a
  character.
\<close>

theorem keyword_after_space_is_not_matched:
  assumes "r = moduleNamePattern \<or> r = moduleParamsPattern \<or>
           r = moduleInputsPattern \<or> r = moduleOutputsPattern"
  shows "(\<forall>c b a g. c = CHR '' '' \<or> c = CHR ''/'' \<or> in_class letters c \<longrightarrow>
            matches r (c # b, a, g) = []) \<and>
         (\<forall>f \<in> set (scan r [] src). 0 < start f \<longrightarrow>
            src ! (start f - 1) \<noteq> CHR '' '' \<and> src ! (start f - 1) \<noteq> CHR ''/'' \<and>
            \<not> in_class letters (src ! (start f - 1)))"
proof -
  from patterns_guarded [OF assms] obtain r' where r: "r = Seq not_after_prefix r'" by (rule exE)
  show ?thesis
    unfolding r
  proof (rule conjI)
    show "\<forall>c b a g. c = CHR '' '' \<or> c = CHR ''/'' \<or> in_class letters c \<longrightarrow>
        matches (Seq not_after_prefix r') (c # b, a, g) = []"
      by (intro allI impI) (rule guarded_after_prefix)
    show "\<forall>f \<in> set (scan (Seq not_after_prefix r') [] src). 0 < start f \<longrightarrow>
        src ! (start f - 1) \<noteq> CHR '' '' \<and> src ! (start f - 1) \<noteq> CHR ''/'' \<and>
        \<not> in_class letters (src ! (start f - 1))"
      by (intro ballI impI) (rule guarded_scan)
  qed
qed

lemma indented_and_same_line:
  "findall_tuples moduleInputsPattern 5 ''  input a'' = [] \<and>
   findall_tuples moduleInputsPattern 5 ''input a, input b'' = [[''input'', [], [], [], ''a'']] \<and>
   findall_tuples moduleOutputsPattern 5 ''input a, output b'' = [] \<and>
   findall_one moduleNamePattern '' module m (input a);'' = []"
  by code_simp

lemma after_parenthesis_scan:
  "map start (scan moduleInputsPattern [] ''(input a'') = [1]"
  by code_simp

text \<open>
  \<open>input b\<close> after \<open>input a,\<close> and a space is not matched; an input indented with
  spaces, an output after a comma and a space and a module keyword after a space are not
  found; and the one match in \<open>(input a\<close> begins after the parenthesis.
\<close>

theorem keyword_after_space_is_not_matched_witness:
  "matches moduleInputsPattern (CHR '' '' # rev ''input a,'', ''input b'', \<lambda>_. None) = [] \<and>
   findall_tuples moduleInputsPattern 5 ''  input a'' = [] \<and>
   findall_tuples moduleInputsPattern 5 ''input a, input b'' = [[''input'', [], [], [], ''a'']] \<and>
   findall_tuples moduleOutputsPattern 5 ''input a, output b'' = [] \<and>
   findall_one moduleNamePattern '' module m (input a);'' = [] \<and>
   hd (scan moduleInputsPattern [] ''(input a'') \<in> set (scan moduleInputsPattern [] ''(input a'') \<and>
   start (hd (scan moduleInputsPattern [] ''(input a'')) = 1 \<and>
   ''(input a'' ! (start (hd (scan moduleInputsPattern [] ''(input a'')) - 1) \<noteq> CHR '' ''"
proof -
  have r: "moduleInputsPattern = moduleNamePattern \<or> moduleInputsPattern = moduleParamsPattern \<or>
      moduleInputsPattern = moduleInputsPattern \<or> moduleInputsPattern = moduleOutputsPattern"
    by (intro disjI2 disjI1) (rule refl)
  note inst = keyword_after_space_is_not_matched [OF r]
  have none: "matches moduleInputsPattern (CHR '' '' # rev ''input a,'', ''input b'', \<lambda>_. None) = []"
    by (rule inst [THEN conjunct1, rule_format]) (rule disjI1, rule refl)
  have ne: "scan moduleInputsPattern [] ''(input a'' \<noteq> []"
    using after_parenthesis_scan by (cases "scan moduleInputsPattern [] ''(input a''") simp_all
  then have mem: "hd (scan moduleInputsPattern [] ''(input a'') \<in> set (scan moduleInputsPattern [] ''(input a'')"
    by (rule hd_in_set)
  have st: "start (hd (scan moduleInputsPattern [] ''(input a'')) = 1"
    using after_parenthesis_scan ne by (cases "scan moduleInputsPattern [] ''(input a''") simp_all
  have "''(input a'' ! (start (hd (scan moduleInputsPattern [] ''(input a'')) - 1) \<noteq> CHR '' '' \<and>
      ''(input a'' ! (start (hd (scan moduleInputsPattern [] ''(input a'')) - 1) \<noteq> CHR ''/'' \<and>
      \<not> in_class letters (''(input a'' ! (start (hd (scan moduleInputsPattern [] ''(input a'')) - 1))"
    using inst [of "''(input a''", THEN conjunct2, THEN bspec, OF mem] st by simp
  then have before: "''(input a'' ! (start (hd (scan moduleInputsPattern [] ''(input a'')) - 1) \<noteq> CHR '' ''"
    by (rule conjunct1)
  from none indented_and_same_line mem st before show ?thesis
    by (simp only: simp_thms)
qed

end
